theory Spec2Isabelle
  imports Main "HOL-Library.Word"
begin

unbundle bit_operations_syntax

section \<open>The deterministic coin\<close>

text \<open>
  \<^verbatim>\<open>enum class IntegerByteOffsets { Byte0 = 24, Byte1 = 16, Byte2 = 8, Byte3 = 0 }\<close>;
  \<open>byteAsInteger\<close> is the \<^verbatim>\<open>static_cast<uint32_t>(byte)\<close> of
  \<^verbatim>\<open>flipCoinByteSelector\<close>.
\<close>

datatype IntegerByteOffsets = Byte0 | Byte1 | Byte2 | Byte3

fun byteAsInteger :: "IntegerByteOffsets \<Rightarrow> nat" where
  "byteAsInteger Byte0 = 24"
| "byteAsInteger Byte1 = 16"
| "byteAsInteger Byte2 = 8"
| "byteAsInteger Byte3 = 0"

definition flipCoinByteSelector :: "32 word \<Rightarrow> IntegerByteOffsets \<Rightarrow> 8 word" where
  "flipCoinByteSelector k byte =
     ucast (drop_bit (byteAsInteger byte) (k AND push_bit (byteAsInteger byte) (0xFF :: 32 word)))"

definition NUMBER_OF_BITS_IN_BYTE :: nat where
  "NUMBER_OF_BITS_IN_BYTE = 8"

text \<open>
  The integer overload. \<open>previousFlips\<close> is a \<^verbatim>\<open>size_t\<close>; only its residue
  modulo 8 is used, so it is a \<open>nat\<close> here.
\<close>

definition flipCoin :: "32 word \<Rightarrow> nat \<Rightarrow> bool" where
  "flipCoin k previousFlips =
     (let firstByte = flipCoinByteSelector k Byte0;
          secondByte = flipCoinByteSelector k Byte1;
          thirdByte = flipCoinByteSelector k Byte2;
          fourthByte = flipCoinByteSelector k Byte3;
          hash = firstByte XOR secondByte XOR thirdByte XOR fourthByte;
          bitToSelect = (push_bit (previousFlips mod NUMBER_OF_BITS_IN_BYTE) 1 :: 8 word)
      in hash AND bitToSelect \<noteq> 0)"

text \<open>
  The \<^verbatim>\<open>std::string\<close> overload: the loop \<^verbatim>\<open>for (auto character : key) hash ^= ...\<close>
  is a left fold over the characters, each cast to a byte.
\<close>

definition xor_fold :: "string \<Rightarrow> 8 word" where
  "xor_fold k = fold (\<lambda>character hash. hash XOR of_char character) k 0"

definition flipCoin_string :: "string \<Rightarrow> nat \<Rightarrow> bool" where
  "flipCoin_string k previousFlips =
     (let hash = xor_fold k;
          bitToSelect = (push_bit (previousFlips mod NUMBER_OF_BITS_IN_BYTE) 1 :: 8 word)
      in hash AND bitToSelect \<noteq> 0)"

section \<open>Nodes, the store and the container object\<close>

text \<open>
  A \<^verbatim>\<open>Node*\<close> is an optional address: \<open>None\<close> is \<^verbatim>\<open>nullptr\<close>. The container
  is the template instantiated at the key type \<^verbatim>\<open>unsigned int\<close>, the parameter type of
  the integer coin; the value type stays a parameter, and its value-initialised
  \<^verbatim>\<open>V{}\<close> is \<open>0\<close>. The fields \<^verbatim>\<open>value\<close> and \<^verbatim>\<open>next\<close> are spelt
  \<open>val\<close> and \<open>nxt\<close>.
\<close>

type_synonym addr = nat
type_synonym ptr = "addr option"

record 'v Node =
  key :: "32 word"
  val :: 'v
  nxt :: ptr
  up :: ptr
  down :: ptr
  previous :: ptr

text \<open>
  The object's six members, together with the free store it allocates its nodes in:
  \<open>heap\<close> maps the live addresses to their nodes and \<open>fresh\<close> is the next address
  \<^verbatim>\<open>new\<close> hands out. The counters are \<^verbatim>\<open>size_t\<close>; each unit of either counter
  is paid for by live nodes, so they are \<open>nat\<close> and only the decrement of
  \<^verbatim>\<open>erase\<close> has its wrap-around written out.
\<close>

record 'v SkipList =
  SkipListSize :: nat
  SkipListLayers :: nat
  s_front :: ptr
  s_back :: ptr
  topFront :: ptr
  topBack :: ptr
  heap :: "addr \<rightharpoonup> 'v Node"
  fresh :: addr

text \<open>
  \<open>out_of_range\<close> and \<open>runtime_error\<close> are the two exception classes the code
  throws. Reading or writing through a null or freed pointer is undefined behaviour in
  C++; the model makes it the third error, \<open>invalid_pointer\<close>. A computation that
  does not return at all is \<open>None\<close>.
\<close>

datatype error = out_of_range | runtime_error | invalid_pointer

type_synonym 'a result = "(error + 'a) option"

definition bindE :: "error + 'a \<Rightarrow> ('a \<Rightarrow> error + 'b) \<Rightarrow> error + 'b" where
  "bindE m f = (case m of Inl e \<Rightarrow> Inl e | Inr x \<Rightarrow> f x)"

definition bindR :: "'a result \<Rightarrow> ('a \<Rightarrow> 'b result) \<Rightarrow> 'b result" where
  "bindR m f = (case m of None \<Rightarrow> None | Some (Inl e) \<Rightarrow> Some (Inl e) | Some (Inr x) \<Rightarrow> f x)"

definition deref :: "(addr \<rightharpoonup> 'v Node) \<Rightarrow> ptr \<Rightarrow> error + 'v Node" where
  "deref h p =
     (case p of None \<Rightarrow> Inl invalid_pointer
      | Some a \<Rightarrow> (case h a of None \<Rightarrow> Inl invalid_pointer | Some n \<Rightarrow> Inr n))"

text \<open>\<open>assign s p f\<close> is a field assignment \<^verbatim>\<open>p->field = ...\<close>, \<open>f\<close> the record update.\<close>

definition assign :: "'v SkipList \<Rightarrow> ptr \<Rightarrow> ('v Node \<Rightarrow> 'v Node) \<Rightarrow> error + 'v SkipList" where
  "assign s p f =
     (case p of None \<Rightarrow> Inl invalid_pointer
      | Some a \<Rightarrow> (case heap s a of None \<Rightarrow> Inl invalid_pointer
                  | Some n \<Rightarrow> Inr (s\<lparr>heap := (heap s)(a \<mapsto> f n)\<rparr>)))"

text \<open>\<^verbatim>\<open>new Node(k, v)\<close>: the constructor sets the four links to \<^verbatim>\<open>nullptr\<close>.\<close>

definition new_Node :: "'v SkipList \<Rightarrow> 32 word \<Rightarrow> 'v \<Rightarrow> ptr \<times> 'v SkipList" where
  "new_Node s k v =
     (Some (fresh s),
      s\<lparr>heap := (heap s)(fresh s \<mapsto>
            \<lparr>key = k, val = v, nxt = None, up = None, down = None, previous = None\<rparr>),
        fresh := Suc (fresh s)\<rparr>)"

definition delete :: "'v SkipList \<Rightarrow> addr \<Rightarrow> 'v SkipList" where
  "delete s a = s\<lparr>heap := (heap s)(a := None)\<rparr>"

section \<open>Construction and the constant-time queries\<close>

definition SkipList_empty :: "'v SkipList" where
  "SkipList_empty =
     \<lparr>SkipListSize = 0, SkipListLayers = 0, s_front = None, s_back = None,
      topFront = None, topBack = None, heap = Map.empty, fresh = 0\<rparr>"

definition construct :: "error + ('v::zero) SkipList" where
  "construct =
     (let s = SkipList_empty;
          (p, s) = new_Node s 0 0; s = s\<lparr>s_front := p\<rparr>;
          (p, s) = new_Node s 0 0; s = s\<lparr>s_back := p\<rparr>;
          (p, s) = new_Node s 0 0; s = s\<lparr>topFront := p\<rparr>;
          (p, s) = new_Node s 0 0; s = s\<lparr>topBack := p\<rparr>
      in bindE (assign s (s_front s) (\<lambda>n. n\<lparr>up := topFront s\<rparr>)) (\<lambda>s.
         bindE (assign s (s_front s) (\<lambda>n. n\<lparr>nxt := s_back s\<rparr>)) (\<lambda>s.
         bindE (assign s (s_back s) (\<lambda>n. n\<lparr>previous := s_front s\<rparr>)) (\<lambda>s.
         bindE (assign s (s_back s) (\<lambda>n. n\<lparr>up := topBack s\<rparr>)) (\<lambda>s.
         bindE (assign s (topFront s) (\<lambda>n. n\<lparr>down := s_front s\<rparr>)) (\<lambda>s.
         bindE (assign s (topFront s) (\<lambda>n. n\<lparr>nxt := topBack s\<rparr>)) (\<lambda>s.
         bindE (assign s (topBack s) (\<lambda>n. n\<lparr>previous := topFront s\<rparr>)) (\<lambda>s.
         bindE (assign s (topBack s) (\<lambda>n. n\<lparr>down := s_back s\<rparr>)) (\<lambda>s.
         Inr (s\<lparr>SkipListLayers := SkipListLayers s + 2\<rparr>))))))))))"

definition size_sl :: "'v SkipList \<Rightarrow> nat" where
  "size_sl s = SkipListSize s"

definition empty_sl :: "'v SkipList \<Rightarrow> bool" where
  "empty_sl s = (SkipListSize s = 0)"

definition layers :: "'v SkipList \<Rightarrow> nat" where
  "layers s = SkipListLayers s"

section \<open>Locating a key\<close>

text \<open>
  The first loop of \<^verbatim>\<open>findNode\<close>, which \<^verbatim>\<open>insert\<close> repeats word for word:
  from \<open>tmp\<close>, move right while the next node is not the tail and its key is smaller,
  otherwise move down, until there is no layer below.
\<close>

partial_function (option) descend ::
  "(addr \<rightharpoonup> 'v Node) \<Rightarrow> 32 word \<Rightarrow> ptr \<Rightarrow> ptr result" where
  "descend h k tmp =
     (case deref h tmp of Inl e \<Rightarrow> Some (Inl e)
      | Inr n \<Rightarrow>
          if down n = None then Some (Inr tmp)
          else (case deref h (nxt n) of Inl e \<Rightarrow> Some (Inl e)
                | Inr nn \<Rightarrow>
                    if nxt nn \<noteq> None \<and> key nn < k then descend h k (nxt n)
                    else descend h k (down n)))"

declare descend.simps [code]

text \<open>The second loop of \<^verbatim>\<open>findNode\<close>, with the \<^verbatim>\<open>throw\<close> that follows it.\<close>

partial_function (option) scan ::
  "(addr \<rightharpoonup> 'v Node) \<Rightarrow> 32 word \<Rightarrow> ptr \<Rightarrow> ptr result" where
  "scan h k tmp =
     (case deref h tmp of Inl e \<Rightarrow> Some (Inl e)
      | Inr n \<Rightarrow>
          (case deref h (nxt n) of Inl e \<Rightarrow> Some (Inl e)
           | Inr nn \<Rightarrow>
               if nxt nn = None then Some (Inl out_of_range)
               else if key nn = k then Some (Inr (nxt n))
               else scan h k (nxt n)))"

declare scan.simps [code]

definition findNode :: "'v SkipList \<Rightarrow> 32 word \<Rightarrow> ptr result" where
  "findNode s k = bindR (descend (heap s) k (topFront s)) (\<lambda>tmp. scan (heap s) k tmp)"

definition find_sl :: "'v SkipList \<Rightarrow> 32 word \<Rightarrow> 'v result" where
  "find_sl s k =
     bindR (findNode s k) (\<lambda>p. Some (bindE (deref (heap s) p) (\<lambda>n. Inr (val n))))"

section \<open>The order queries\<close>

partial_function (option) height_loop ::
  "(addr \<rightharpoonup> 'v Node) \<Rightarrow> ptr \<Rightarrow> nat \<Rightarrow> nat result" where
  "height_loop h tmp n_layers =
     (case deref h tmp of Inl e \<Rightarrow> Some (Inl e)
      | Inr n \<Rightarrow>
          if up n \<noteq> None then height_loop h (up n) (n_layers + 1)
          else Some (Inr n_layers))"

declare height_loop.simps [code]

definition height :: "'v SkipList \<Rightarrow> 32 word \<Rightarrow> nat result" where
  "height s k = bindR (findNode s k) (\<lambda>tmp. height_loop (heap s) tmp 1)"

definition nextKey :: "'v SkipList \<Rightarrow> 32 word \<Rightarrow> (32 word) result" where
  "nextKey s k =
     bindR (findNode s k) (\<lambda>tmp. Some (
       bindE (deref (heap s) tmp) (\<lambda>n.
       bindE (deref (heap s) (nxt n)) (\<lambda>nn.
       if nxt nn = None then Inl runtime_error else Inr (key nn)))))"

definition previousKey :: "'v SkipList \<Rightarrow> 32 word \<Rightarrow> (32 word) result" where
  "previousKey s k =
     bindR (findNode s k) (\<lambda>tmp. Some (
       bindE (deref (heap s) tmp) (\<lambda>n.
       bindE (deref (heap s) (previous n)) (\<lambda>pn.
       if previous pn = None then Inl runtime_error else Inr (key pn)))))"

partial_function (option) keys_loop ::
  "(addr \<rightharpoonup> 'v Node) \<Rightarrow> ptr \<Rightarrow> ptr \<Rightarrow> 32 word list \<Rightarrow> (32 word list) result" where
  "keys_loop h bk tmp keys =
     (if tmp \<noteq> bk
      then (case deref h tmp of Inl e \<Rightarrow> Some (Inl e)
            | Inr n \<Rightarrow> keys_loop h bk (nxt n) (keys @ [key n]))
      else Some (Inr keys))"

declare keys_loop.simps [code]

definition allKeysInOrder :: "'v SkipList \<Rightarrow> (32 word list) result" where
  "allKeysInOrder s =
     (case deref (heap s) (s_front s) of Inl e \<Rightarrow> Some (Inl e)
      | Inr f \<Rightarrow> keys_loop (heap s) (s_back s) (nxt f) [])"

definition isSmallestKey :: "'v SkipList \<Rightarrow> 32 word \<Rightarrow> bool result" where
  "isSmallestKey s k =
     bindR (findNode s k) (\<lambda>_. Some (
       bindE (deref (heap s) (s_front s)) (\<lambda>f.
       bindE (deref (heap s) (nxt f)) (\<lambda>n. Inr (key n = k)))))"

definition isLargestKey :: "'v SkipList \<Rightarrow> 32 word \<Rightarrow> bool result" where
  "isLargestKey s k =
     bindR (findNode s k) (\<lambda>_. Some (
       bindE (deref (heap s) (s_back s)) (\<lambda>b.
       bindE (deref (heap s) (previous b)) (\<lambda>n. Inr (key n = k)))))"

section \<open>Insertion\<close>

text \<open>
  The loop at the base layer. It leaves in one of two ways: by its \<^verbatim>\<open>return false\<close>,
  or by its condition failing, with \<open>tmp\<close> where the new node goes.
\<close>

datatype base_exit = Return_false | Position ptr

partial_function (option) advance ::
  "(addr \<rightharpoonup> 'v Node) \<Rightarrow> 32 word \<Rightarrow> ptr \<Rightarrow> base_exit result" where
  "advance h k tmp =
     (case deref h tmp of Inl e \<Rightarrow> Some (Inl e)
      | Inr n \<Rightarrow>
          (case deref h (nxt n) of Inl e \<Rightarrow> Some (Inl e)
           | Inr nn \<Rightarrow>
               if nxt nn \<noteq> None \<and> key nn < k
               then (if key n = k then Some (Inr Return_false) else advance h k (nxt n))
               else Some (Inr (Position tmp))))"

declare advance.simps [code]

text \<open>The splice of the new node after \<open>tmp\<close>; the result carries \<^verbatim>\<open>tmp -> next\<close>.\<close>

definition splice_base ::
  "'v SkipList \<Rightarrow> 32 word \<Rightarrow> 'v \<Rightarrow> ptr \<Rightarrow> error + (ptr \<times> 'v SkipList)" where
  "splice_base s k v tmp =
     (let (newNode, s) = new_Node s k v
      in bindE (assign s newNode (\<lambda>n. n\<lparr>previous := tmp\<rparr>)) (\<lambda>s.
         bindE (deref (heap s) tmp) (\<lambda>t.
         bindE (assign s newNode (\<lambda>n. n\<lparr>nxt := nxt t\<rparr>)) (\<lambda>s.
         bindE (deref (heap s) tmp) (\<lambda>t.
         bindE (assign s (nxt t) (\<lambda>n. n\<lparr>previous := newNode\<rparr>)) (\<lambda>s.
         bindE (assign s tmp (\<lambda>n. n\<lparr>nxt := newNode\<rparr>)) (\<lambda>s.
         bindE (deref (heap s) tmp) (\<lambda>t.
         Inr (nxt t, s\<lparr>SkipListSize := SkipListSize s + 1\<rparr>)))))))))"

text \<open>The block that adds a spare layer on top.\<close>

definition grow :: "('v::zero) SkipList \<Rightarrow> error + 'v SkipList" where
  "grow s =
     (let (newTop, s) = new_Node s 0 0;
          (newTopBack, s) = new_Node s 0 0
      in bindE (assign s newTop (\<lambda>n. n\<lparr>down := topFront s\<rparr>)) (\<lambda>s.
         bindE (assign s newTopBack (\<lambda>n. n\<lparr>down := topBack s\<rparr>)) (\<lambda>s.
         bindE (assign s newTop (\<lambda>n. n\<lparr>nxt := newTopBack\<rparr>)) (\<lambda>s.
         bindE (assign s newTopBack (\<lambda>n. n\<lparr>previous := newTop\<rparr>)) (\<lambda>s.
         bindE (assign s (topFront s) (\<lambda>n. n\<lparr>up := newTop\<rparr>)) (\<lambda>s.
         bindE (assign s (topBack s) (\<lambda>n. n\<lparr>up := newTopBack\<rparr>)) (\<lambda>s.
         Inr (s\<lparr>topFront := newTop, topBack := newTopBack,
                SkipListLayers := SkipListLayers s + 1\<rparr>))))))))"

text \<open>\<^verbatim>\<open>while (randTmp -> up == nullptr) randTmp = randTmp -> previous;\<close>\<close>

partial_function (option) walk_back ::
  "(addr \<rightharpoonup> 'v Node) \<Rightarrow> ptr \<Rightarrow> ptr result" where
  "walk_back h randTmp =
     (case deref h randTmp of Inl e \<Rightarrow> Some (Inl e)
      | Inr n \<Rightarrow> if up n = None then walk_back h (previous n) else Some (Inr randTmp))"

declare walk_back.simps [code]

text \<open>
  The rest of one round of the promotion loop, from \<^verbatim>\<open>new Node(key, value)\<close> to
  \<^verbatim>\<open>randTmp2 = newLayer\<close>: \<open>randTmp\<close> has already walked back. The result is the new
  \<open>randTmp\<close>, the new \<open>randTmp2\<close> and the state.
\<close>

definition lift ::
  "'v SkipList \<Rightarrow> 32 word \<Rightarrow> 'v \<Rightarrow> ptr \<Rightarrow> ptr \<Rightarrow> error + (ptr \<times> ptr \<times> 'v SkipList)" where
  "lift s k v randTmp randTmp2 =
     (let (newLayer, s) = new_Node s k v
      in bindE (deref (heap s) randTmp) (\<lambda>r.
         let randTmp = up r
         in bindE (assign s newLayer (\<lambda>n. n\<lparr>previous := randTmp\<rparr>)) (\<lambda>s.
            bindE (assign s newLayer (\<lambda>n. n\<lparr>down := randTmp2\<rparr>)) (\<lambda>s.
            bindE (deref (heap s) randTmp) (\<lambda>r.
            bindE (assign s newLayer (\<lambda>n. n\<lparr>nxt := nxt r\<rparr>)) (\<lambda>s.
            bindE (assign s randTmp2 (\<lambda>n. n\<lparr>up := newLayer\<rparr>)) (\<lambda>s.
            bindE (deref (heap s) randTmp) (\<lambda>r.
            bindE (assign s (nxt r) (\<lambda>n. n\<lparr>previous := newLayer\<rparr>)) (\<lambda>s.
            bindE (assign s randTmp (\<lambda>n. n\<lparr>nxt := newLayer\<rparr>)) (\<lambda>s.
            Inr (randTmp, newLayer, s)))))))))))"

text \<open>
  \<^verbatim>\<open>ceil(log2(n))\<close> for \<open>n \<ge> 1\<close>: the least \<open>e\<close> with \<open>n \<le> 2 ^ e\<close>. The code
  computes it in \<^verbatim>\<open>double\<close>; the two agree as long as the rounding error of
  \<^verbatim>\<open>log2\<close> stays below the distance of \<open>log2 n\<close> to the nearest integer, which
  holds for every size a store can hold.
\<close>

fun ceil_log2 :: "nat \<Rightarrow> nat" where
  "ceil_log2 n = (if n \<le> 1 then 0 else Suc (ceil_log2 ((n + 1) div 2)))"

declare ceil_log2.simps [simp del]

text \<open>The two \<^verbatim>\<open>break\<close> tests at the end of a round.\<close>

definition cap_reached :: "'v SkipList \<Rightarrow> bool" where
  "cap_reached s =
     ((SkipListSize s \<le> 16 \<and> SkipListLayers s = 13) \<or>
      (SkipListSize s > 16 \<and> SkipListLayers s = 3 * ceil_log2 (SkipListSize s) + 1))"

partial_function (option) promote ::
  "('v::zero) SkipList \<Rightarrow> 32 word \<Rightarrow> 'v \<Rightarrow> nat \<Rightarrow> ptr \<Rightarrow> ptr \<Rightarrow> nat \<Rightarrow> 'v SkipList result" where
  "promote s k v numberOfFlips randTmp randTmp2 n_layers =
     (if flipCoin k numberOfFlips
      then (case (if n_layers = SkipListLayers s - 1 then grow s else Inr s) of
              Inl e \<Rightarrow> Some (Inl e)
            | Inr s \<Rightarrow>
                (case walk_back (heap s) randTmp of None \<Rightarrow> None
                 | Some (Inl e) \<Rightarrow> Some (Inl e)
                 | Some (Inr randTmp) \<Rightarrow>
                     (case lift s k v randTmp randTmp2 of Inl e \<Rightarrow> Some (Inl e)
                      | Inr (randTmp, randTmp2, s) \<Rightarrow>
                          if cap_reached s then Some (Inr s)
                          else promote s k v (numberOfFlips + 1) randTmp randTmp2
                                 (n_layers + 1))))
      else Some (Inr s))"

declare promote.simps [code]

definition insert_sl ::
  "('v::zero) SkipList \<Rightarrow> 32 word \<Rightarrow> 'v \<Rightarrow> (bool \<times> 'v SkipList) result" where
  "insert_sl s k v =
     bindR (descend (heap s) k (topFront s)) (\<lambda>tmp.
     bindR (advance (heap s) k tmp) (\<lambda>x.
       case x of Return_false \<Rightarrow> Some (Inr (False, s))
       | Position tmp \<Rightarrow>
           (case splice_base s k v tmp of Inl e \<Rightarrow> Some (Inl e)
            | Inr (randTmp2, s) \<Rightarrow>
                bindR (promote s k v 0 tmp randTmp2 1) (\<lambda>s. Some (Inr (True, s))))))"

section \<open>Insertion at the key type int\<close>

text \<open>
  The template at \<^verbatim>\<open>K = int\<close>. A key is the same 32 bits, read as a two's-complement
  number by \<open>sint\<close>: \<^verbatim>\<open>tmp -> next -> key < key\<close> compares the signed readings,
  \<^verbatim>\<open>==\<close> compares the bits, \<^verbatim>\<open>K{}\<close> is 0, and the call
  \<^verbatim>\<open>flipCoin(key, numberOfFlips)\<close> selects the \<^verbatim>\<open>unsigned\<close> overload, the conversion
  keeping the bits. So only the two loops of \<^verbatim>\<open>insert\<close> that order keys differ from the
  instance at \<^verbatim>\<open>unsigned int\<close>.
\<close>

partial_function (option) descend_int ::
  "(addr \<rightharpoonup> 'v Node) \<Rightarrow> 32 word \<Rightarrow> ptr \<Rightarrow> ptr result" where
  "descend_int h k tmp =
     (case deref h tmp of Inl e \<Rightarrow> Some (Inl e)
      | Inr n \<Rightarrow>
          if down n = None then Some (Inr tmp)
          else (case deref h (nxt n) of Inl e \<Rightarrow> Some (Inl e)
                | Inr nn \<Rightarrow>
                    if nxt nn \<noteq> None \<and> sint (key nn) < sint k then descend_int h k (nxt n)
                    else descend_int h k (down n)))"

declare descend_int.simps [code]

partial_function (option) advance_int ::
  "(addr \<rightharpoonup> 'v Node) \<Rightarrow> 32 word \<Rightarrow> ptr \<Rightarrow> base_exit result" where
  "advance_int h k tmp =
     (case deref h tmp of Inl e \<Rightarrow> Some (Inl e)
      | Inr n \<Rightarrow>
          (case deref h (nxt n) of Inl e \<Rightarrow> Some (Inl e)
           | Inr nn \<Rightarrow>
               if nxt nn \<noteq> None \<and> sint (key nn) < sint k
               then (if key n = k then Some (Inr Return_false) else advance_int h k (nxt n))
               else Some (Inr (Position tmp))))"

declare advance_int.simps [code]

definition insert_int ::
  "('v::zero) SkipList \<Rightarrow> 32 word \<Rightarrow> 'v \<Rightarrow> (bool \<times> 'v SkipList) result" where
  "insert_int s k v =
     bindR (descend_int (heap s) k (topFront s)) (\<lambda>tmp.
     bindR (advance_int (heap s) k tmp) (\<lambda>x.
       case x of Return_false \<Rightarrow> Some (Inr (False, s))
       | Position tmp \<Rightarrow>
           (case splice_base s k v tmp of Inl e \<Rightarrow> Some (Inl e)
            | Inr (randTmp2, s) \<Rightarrow>
                bindR (promote s k v 0 tmp randTmp2 1) (\<lambda>s. Some (Inr (True, s))))))"

section \<open>Erasure\<close>

partial_function (option) erase_loop ::
  "'v SkipList \<Rightarrow> ptr \<Rightarrow> 'v SkipList result" where
  "erase_loop s tmp =
     (case tmp of None \<Rightarrow> Some (Inr s)
      | Some a \<Rightarrow>
          (case deref (heap s) tmp of Inl e \<Rightarrow> Some (Inl e)
           | Inr n \<Rightarrow>
               (let tmpPrevious = previous n; tmpNext = nxt n
                in case bindE (assign s tmpPrevious (\<lambda>n. n\<lparr>nxt := tmpNext\<rparr>)) (\<lambda>s.
                        bindE (assign s tmpNext (\<lambda>n. n\<lparr>previous := tmpPrevious\<rparr>)) (\<lambda>s.
                        bindE (deref (heap s) tmp) (\<lambda>n. Inr (up n, delete s a)))) of
                     Inl e \<Rightarrow> Some (Inl e)
                   | Inr (tmp, s) \<Rightarrow> erase_loop s tmp)))"

declare erase_loop.simps [code]

definition erase :: "'v SkipList \<Rightarrow> 32 word \<Rightarrow> 'v SkipList result" where
  "erase s k =
     bindR (findNode s k) (\<lambda>tmp.
     bindR (erase_loop s tmp) (\<lambda>s.
       Some (Inr (s\<lparr>SkipListSize :=
                    (if SkipListSize s = 0 then 2 ^ 64 - 1 else SkipListSize s - 1)\<rparr>))))"

section \<open>Sequences of operations\<close>

text \<open>
  A caller's program: a list of \<^verbatim>\<open>insert\<close> and \<^verbatim>\<open>erase\<close> calls on a freshly
  constructed container. \<open>run\<close> stops at the first call that throws or does not return;
  \<open>after ops Q\<close> says that every call of \<open>ops\<close> returns and that \<open>Q\<close> holds of the
  container they leave.
\<close>

datatype 'v op = Insert "32 word" 'v | Erase "32 word"

fun apply_op :: "('v::zero) SkipList \<Rightarrow> 'v op \<Rightarrow> 'v SkipList result" where
  "apply_op s (Insert k v) = bindR (insert_sl s k v) (\<lambda>(b, s'). Some (Inr s'))"
| "apply_op s (Erase k) = erase s k"

fun run :: "('v::zero) SkipList result \<Rightarrow> 'v op list \<Rightarrow> 'v SkipList result" where
  "run r [] = r"
| "run r (x # xs) = run (bindR r (\<lambda>s. apply_op s x)) xs"

definition after :: "('v::zero) op list \<Rightarrow> ('v SkipList \<Rightarrow> bool) \<Rightarrow> bool" where
  "after ops Q = (case run (Some construct) ops of Some (Inr s) \<Rightarrow> Q s | _ \<Rightarrow> False)"

section \<open>The shape of a well-formed container\<close>

text \<open>
  \<open>fld f h a\<close> reads field \<open>f\<close> of the node at address \<open>a\<close>. The setters below are
  the six field assignments as functions on the store.
\<close>

definition fld :: "('v Node \<Rightarrow> 'b) \<Rightarrow> (addr \<rightharpoonup> 'v Node) \<Rightarrow> addr \<Rightarrow> 'b" where
  "fld f h a = f (the (h a))"

definition set_nxt :: "(addr \<rightharpoonup> 'v Node) \<Rightarrow> addr \<Rightarrow> ptr \<Rightarrow> (addr \<rightharpoonup> 'v Node)" where
  "set_nxt h a x = h(a \<mapsto> (the (h a))\<lparr>nxt := x\<rparr>)"

definition set_previous :: "(addr \<rightharpoonup> 'v Node) \<Rightarrow> addr \<Rightarrow> ptr \<Rightarrow> (addr \<rightharpoonup> 'v Node)" where
  "set_previous h a x = h(a \<mapsto> (the (h a))\<lparr>previous := x\<rparr>)"

definition set_up :: "(addr \<rightharpoonup> 'v Node) \<Rightarrow> addr \<Rightarrow> ptr \<Rightarrow> (addr \<rightharpoonup> 'v Node)" where
  "set_up h a x = h(a \<mapsto> (the (h a))\<lparr>up := x\<rparr>)"

definition set_down :: "(addr \<rightharpoonup> 'v Node) \<Rightarrow> addr \<Rightarrow> ptr \<Rightarrow> (addr \<rightharpoonup> 'v Node)" where
  "set_down h a x = h(a \<mapsto> (the (h a))\<lparr>down := x\<rparr>)"

definition fresh_node :: "32 word \<Rightarrow> 'v \<Rightarrow> 'v Node" where
  "fresh_node k v = \<lparr>key = k, val = v, nxt = None, up = None, down = None, previous = None\<rparr>"

text \<open>
  \<open>dl N P p as q\<close>: the addresses \<open>as\<close> are chained by the next-field \<open>N\<close> and the
  previous-field \<open>P\<close>; the first one has \<open>p\<close> before it and the last one has \<open>q\<close>
  after it.
\<close>

fun dl :: "(addr \<Rightarrow> ptr) \<Rightarrow> (addr \<Rightarrow> ptr) \<Rightarrow> ptr \<Rightarrow> addr list \<Rightarrow> ptr \<Rightarrow> bool" where
  "dl N P p [] q = True"
| "dl N P p (a # as) q =
     (P a = p \<and> N a = (case as of [] \<Rightarrow> q | b # _ \<Rightarrow> Some b) \<and> dl N P (Some a) as q)"

text \<open>A layer: at least the two sentinels, all nodes live, chained from null to null.\<close>

definition layer_ok :: "(addr \<rightharpoonup> 'v Node) \<Rightarrow> addr list \<Rightarrow> bool" where
  "layer_ok h l \<longleftrightarrow>
     2 \<le> length l \<and> distinct l \<and> set l \<subseteq> dom h \<and>
     dl (fld nxt h) (fld previous h) None l None"

text \<open>
  \<open>linkv U D K l l'\<close>: layer \<open>l'\<close> lies directly above layer \<open>l\<close>. Its nodes are
  the up-neighbours of the nodes of \<open>l\<close> that have one, in the same order; down leads
  back, the keys agree, and both sentinels of \<open>l\<close> continue upward.
\<close>

definition linkv ::
  "(addr \<Rightarrow> ptr) \<Rightarrow> (addr \<Rightarrow> ptr) \<Rightarrow> (addr \<Rightarrow> 32 word) \<Rightarrow> addr list \<Rightarrow> addr list \<Rightarrow> bool" where
  "linkv U D K l l' \<longleftrightarrow>
     l' = map (\<lambda>a. the (U a)) (filter (\<lambda>a. U a \<noteq> None) l) \<and>
     (\<forall>a\<in>set l. \<forall>u. U a = Some u \<longrightarrow> D u = Some a \<and> K u = K a) \<and>
     U (hd l) \<noteq> None \<and> U (last l) \<noteq> None"

definition link :: "(addr \<rightharpoonup> 'v Node) \<Rightarrow> addr list \<Rightarrow> addr list \<Rightarrow> bool" where
  "link h l l' = linkv (fld up h) (fld down h) (fld key h) l l'"

text \<open>The real nodes of a layer: all but the two sentinels.\<close>

definition inner :: "addr list \<Rightarrow> addr list" where
  "inner l = butlast (tl l)"

text \<open>
  \<open>wf s ls\<close>: the layers of \<open>s\<close> are the lists \<open>ls\<close>, base layer first. The layers
  are disjoint chains of nodes allocated earlier, each one linked to the one above; the top
  layer has no up-links and the base layer no down-links; the base keys ascend (not
  necessarily strictly); the sentinels carry the value-initialised key; the counters
  and the four member pointers agree with the lists.
\<close>

definition wf :: "'v SkipList \<Rightarrow> addr list list \<Rightarrow> bool" where
  "wf s ls \<longleftrightarrow>
     length ls = SkipListLayers s \<and> 2 \<le> length ls \<and>
     (\<forall>l\<in>set ls. layer_ok (heap s) l \<and> (\<forall>a\<in>set l. a < fresh s)) \<and>
     (\<forall>i j. i < j \<and> j < length ls \<longrightarrow> set (ls ! i) \<inter> set (ls ! j) = {}) \<and>
     (\<forall>i. Suc i < length ls \<longrightarrow> link (heap s) (ls ! i) (ls ! Suc i)) \<and>
     (\<forall>a\<in>set (last ls). fld up (heap s) a = None) \<and>
     (\<forall>a\<in>set (hd ls). fld down (heap s) a = None) \<and>
     sorted (map (fld key (heap s)) (inner (hd ls))) \<and>
     (\<forall>l\<in>set ls. fld key (heap s) (hd l) = 0 \<and> fld key (heap s) (last l) = 0) \<and>
     SkipListSize s + 2 = length (hd ls) \<and>
     s_front s = Some (hd (hd ls)) \<and> s_back s = Some (last (hd ls)) \<and>
     topFront s = Some (hd (last ls)) \<and> topBack s = Some (last (last ls))"

definition invar :: "'v SkipList \<Rightarrow> bool" where
  "invar s \<longleftrightarrow> (\<exists>ls. wf s ls)"

text \<open>
  \<open>extends s s'\<close>: from \<open>s\<close> to \<open>s'\<close> nodes were only added. The nodes allocated
  before keep their key and value, the key count is the same and no layer was removed.
\<close>

definition extends :: "'v SkipList \<Rightarrow> 'v SkipList \<Rightarrow> bool" where
  "extends s s' \<longleftrightarrow>
     fresh s \<le> fresh s' \<and> SkipListSize s' = SkipListSize s \<and>
     SkipListLayers s \<le> SkipListLayers s' \<and>
     (\<forall>a<fresh s. fld key (heap s') a = fld key (heap s) a \<and>
                  fld val (heap s') a = fld val (heap s) a)"

text \<open>
  \<open>inserted s ls k v s' ls'\<close>: \<open>s'\<close> is \<open>s\<close> with one more base node, the one at
  the address \<open>fresh s\<close>, carrying \<open>k\<close> and \<open>v\<close>. It stands after the base nodes
  with a smaller key and before the others; the older nodes keep their key and value.
\<close>

definition inserted ::
  "'v SkipList \<Rightarrow> addr list list \<Rightarrow> 32 word \<Rightarrow> 'v \<Rightarrow> 'v SkipList \<Rightarrow> addr list list \<Rightarrow> bool" where
  "inserted s ls k v s' ls' \<longleftrightarrow>
     wf s' ls' \<and>
     (\<exists>A C. ls ! 0 = A @ C \<and> ls' ! 0 = A @ fresh s # C \<and> A \<noteq> [] \<and> C \<noteq> [] \<and>
        (\<forall>y\<in>set (tl A). fld key (heap s) y < k) \<and>
        (tl C = [] \<or> \<not> fld key (heap s) (hd C) < k)) \<and>
     fld key (heap s') (fresh s) = k \<and> fld val (heap s') (fresh s) = v \<and>
     (\<forall>a<fresh s. fld key (heap s') a = fld key (heap s) a \<and>
                  fld val (heap s') a = fld val (heap s) a) \<and>
     SkipListSize s' = SkipListSize s + 1 \<and> SkipListLayers s \<le> SkipListLayers s'"

text \<open>The layer cap of \<^verbatim>\<open>insert\<close> for a container of \<open>n\<close> keys.\<close>

definition cap :: "nat \<Rightarrow> nat" where
  "cap n = (if n \<le> 16 then 13 else 3 * ceil_log2 n + 1)"

section \<open>The shape of a container while a tower is being removed\<close>

text \<open>
  One turn of the loop of \<^verbatim>\<open>erase\<close> on the node \<open>x\<close> with the neighbours \<open>a\<close> and
  \<open>b\<close>: \<^verbatim>\<open>tmpPrevious->next = tmpNext; tmpNext->previous = tmpPrevious; delete tmp\<close>.
\<close>

definition unlink :: "(addr \<rightharpoonup> 'v Node) \<Rightarrow> addr \<Rightarrow> addr \<Rightarrow> addr \<Rightarrow> (addr \<rightharpoonup> 'v Node)" where
  "unlink h a x b = (set_previous (set_nxt h a (Some b)) b (Some a))(x := None)"

text \<open>
  Between two turns of that loop the node \<open>x\<close> of layer \<open>j\<close> is still chained into its
  layer, but the node below it is gone: layer \<open>j - 1\<close> is linked to layer \<open>j\<close> without
  \<open>x\<close>. \<open>tgt ls pend i\<close> is the list that layer \<open>i\<close> is linked to, \<open>pend\<close> the
  pending pair \<open>(j, x)\<close> if there is one.
\<close>

definition tgt :: "addr list list \<Rightarrow> (nat \<times> addr) option \<Rightarrow> nat \<Rightarrow> addr list" where
  "tgt ls pend i =
     (case pend of None \<Rightarrow> ls ! Suc i
      | Some (j, x) \<Rightarrow> if Suc i = j then remove1 x (ls ! Suc i) else ls ! Suc i)"

text \<open>
  \<open>wfe s ls pend d\<close> is \<open>wf s ls\<close> with the links of \<open>tgt\<close>, and with a key counter
  that is \<open>d\<close> ahead of the base layer (the counter is decremented after the loop).
\<close>

definition wfe :: "'v SkipList \<Rightarrow> addr list list \<Rightarrow> (nat \<times> addr) option \<Rightarrow> nat \<Rightarrow> bool" where
  "wfe s ls pend d \<longleftrightarrow>
     length ls = SkipListLayers s \<and> 2 \<le> length ls \<and>
     (\<forall>l\<in>set ls. layer_ok (heap s) l \<and> (\<forall>a\<in>set l. a < fresh s)) \<and>
     (\<forall>i j. i < j \<and> j < length ls \<longrightarrow> set (ls ! i) \<inter> set (ls ! j) = {}) \<and>
     (\<forall>i. Suc i < length ls \<longrightarrow> link (heap s) (ls ! i) (tgt ls pend i)) \<and>
     (\<forall>j x. pend = Some (j, x) \<longrightarrow> j < length ls \<and> x \<in> set (inner (ls ! j))) \<and>
     (\<forall>a\<in>set (last ls). fld up (heap s) a = None) \<and>
     (\<forall>a\<in>set (hd ls). fld down (heap s) a = None) \<and>
     sorted (map (fld key (heap s)) (inner (hd ls))) \<and>
     (\<forall>l\<in>set ls. fld key (heap s) (hd l) = 0 \<and> fld key (heap s) (last l) = 0) \<and>
     SkipListSize s + 2 = length (hd ls) + d \<and>
     s_front s = Some (hd (hd ls)) \<and> s_back s = Some (last (hd ls)) \<and>
     topFront s = Some (hd (last ls)) \<and> topBack s = Some (last (last ls))"

section \<open>The coin on keys that fold to zero\<close>

lemma fold_xor_acc:
  "fold (\<lambda>character hash. hash XOR of_char character) k (a :: 8 word) =
     a XOR fold (\<lambda>character hash. hash XOR of_char character) k 0"
proof (induction k arbitrary: a)
  case Nil
  show ?case by simp
next
  case (Cons c k)
  show ?case
    using Cons.IH [of "a XOR of_char c"] Cons.IH [of "of_char c"]
    by (simp add: xor.assoc)
qed

lemma xor_fold_Nil: "xor_fold [] = 0"
  by (simp add: xor_fold_def)

lemma xor_fold_Cons: "xor_fold (c # k) = of_char c XOR xor_fold k"
  using fold_xor_acc [of k "of_char c"] by (simp add: xor_fold_def)

lemma xor_fold_append: "xor_fold (xs @ ys) = xor_fold xs XOR xor_fold ys"
  by (induction xs) (simp_all add: xor_fold_Nil xor_fold_Cons xor.assoc)

text \<open>
  A string in which every byte value occurs an even number of times folds to zero: the
  first character occurs again further on, and the two occurrences cancel.
\<close>

lemma xor_fold_even:
  "(\<forall>c. even (count_list k c)) \<Longrightarrow> xor_fold k = 0"
proof (induction "length k" arbitrary: k rule: less_induct)
  case less
  show ?case
  proof (cases k)
    case Nil
    then show ?thesis by (simp add: xor_fold_Nil)
  next
    case (Cons c k')
    from less.prems have "even (count_list k c)" by blast
    with Cons have "odd (count_list k' c)" by simp
    then have "count_list k' c \<noteq> 0" by (metis even_zero)
    then have "c \<in> set k'" using count_notin by fastforce
    then obtain xs ys where k': "k' = xs @ c # ys" by (auto dest: split_list)
    have ev: "\<forall>d. even (count_list (xs @ ys) d)"
    proof
      fix d
      from less.prems have "even (count_list k d)" by blast
      then show "even (count_list (xs @ ys) d)"
        by (cases "d = c") (simp_all add: Cons k')
    qed
    have "length (xs @ ys) < length k" by (simp add: Cons k')
    then have "xor_fold (xs @ ys) = 0" using less.hyps ev by blast
    moreover have "xor_fold k = xor_fold (xs @ ys)"
      by (simp add: Cons k' xor_fold_Cons xor_fold_append xor.left_commute)
    ultimately show ?thesis by simp
  qed
qed

lemma flipCoin_zero: "\<not> flipCoin 0 i"
  by (simp add: flipCoin_def flipCoinByteSelector_def)

lemma flipCoin_string_zero_hash: "xor_fold k = 0 \<Longrightarrow> \<not> flipCoin_string k i"
  by (simp add: flipCoin_string_def)

lemma flipCoin_zero_hash:
  "flipCoinByteSelector k Byte0 XOR flipCoinByteSelector k Byte1 XOR
     flipCoinByteSelector k Byte2 XOR flipCoinByteSelector k Byte3 = 0 \<Longrightarrow> \<not> flipCoin k i"
  by (simp add: flipCoin_def Let_def)

lemma promote_zero_hash:
  "\<not> flipCoin k i \<Longrightarrow> promote s k v i randTmp randTmp2 n_layers = Some (Inr s)"
  by (subst promote.simps) simp

text \<open>
  Claim C9. A key whose bytes XOR-fold to zero loses the coin flip at every attempt index:
  an integer key whose four bytes fold to zero, for which the promotion loop of
  \<^verbatim>\<open>insert\<close> then leaves at once with the container as it was, and a string whose
  characters fold to zero. The integer key 0, the empty string and every string in which
  each byte value occurs an even number of times are such keys.
\<close>

theorem zero_hash_never_promoted:
  "(flipCoinByteSelector n Byte0 XOR flipCoinByteSelector n Byte1 XOR
      flipCoinByteSelector n Byte2 XOR flipCoinByteSelector n Byte3 = 0 \<longrightarrow>
      \<not> flipCoin n i \<and> promote s n v i randTmp randTmp2 n_layers = Some (Inr s)) \<and>
   (xor_fold k = 0 \<longrightarrow> \<not> flipCoin_string k i) \<and>
   \<not> flipCoin 0 i \<and> \<not> flipCoin_string [] i \<and>
   ((\<forall>c. even (count_list k c)) \<longrightarrow> xor_fold k = 0 \<and> \<not> flipCoin_string k i)"
  using xor_fold_even [of k] flipCoin_zero_hash [of n i]
    promote_zero_hash [of n i s v randTmp randTmp2 n_layers]
  by (simp add: flipCoin_zero flipCoin_string_zero_hash xor_fold_Nil)

theorem zero_hash_never_promoted_witness:
  "flipCoinByteSelector 0x01010101 Byte0 XOR flipCoinByteSelector 0x01010101 Byte1 XOR
     flipCoinByteSelector 0x01010101 Byte2 XOR flipCoinByteSelector 0x01010101 Byte3 = 0 \<and>
   \<not> flipCoin 0x01010101 3 \<and>
   xor_fold [CHR 0x01, CHR 0x02, CHR 0x03] = 0 \<and>
   \<not> flipCoin_string [CHR 0x01, CHR 0x02, CHR 0x03] 3 \<and>
   (\<forall>c. even (count_list ''abba'' c)) \<and> \<not> flipCoin_string ''abba'' 3 \<and> \<not> flipCoin 0 3"
proof -
  have h: "flipCoinByteSelector 0x01010101 Byte0 XOR flipCoinByteSelector 0x01010101 Byte1 XOR
     flipCoinByteSelector 0x01010101 Byte2 XOR flipCoinByteSelector 0x01010101 Byte3 = 0"
    by code_simp
  have x: "xor_fold [CHR 0x01, CHR 0x02, CHR 0x03] = 0" by code_simp
  have ev: "\<forall>c. even (count_list ''abba'' c)" by simp
  show ?thesis
    using h x ev
      zero_hash_never_promoted [where n = "0x01010101" and i = 3 and
         k = "[CHR 0x01, CHR 0x02, CHR 0x03]" and s = "SkipList_empty :: int SkipList"]
      zero_hash_never_promoted [where n = 0 and i = 3 and k = "''abba''" and
         s = "SkipList_empty :: int SkipList"]
    by blast
qed

section \<open>Runs on concrete keys\<close>

text \<open>
  Claim C6. On a fresh container the inserts of 0, 5, 3, 9, 1 give the ascending keys
  0, 1, 3, 5, 9; the successor of 0 is 1, the predecessor of 9 is 5, 0 is the smallest and
  9 the largest key; after the erase of 3 the lookup of 3 throws out_of_range and the keys
  are 0, 1, 5, 9.
\<close>

theorem scenario_0_5_3_9_1:
  "after [Insert 0 (100::int), Insert 5 105, Insert 3 103, Insert 9 109, Insert 1 101]
     (\<lambda>s. allKeysInOrder s = Some (Inr [0, 1, 3, 5, 9]) \<and>
          nextKey s 0 = Some (Inr 1) \<and>
          previousKey s 9 = Some (Inr 5) \<and>
          isSmallestKey s 0 = Some (Inr True) \<and>
          isLargestKey s 9 = Some (Inr True) \<and>
          (case erase s 3 of
             Some (Inr s') \<Rightarrow>
               find_sl s' 3 = Some (Inl out_of_range) \<and>
               allKeysInOrder s' = Some (Inr [0, 1, 5, 9])
           | _ \<Rightarrow> False))"
  by code_simp

text \<open>
  Claim C1, at the input where the code departs from it. The container holds key 0 with
  value 1; a second insert of key 0 returns true, the size becomes 2 and the base layer
  holds the key twice.
\<close>

theorem insert_existing_key_returns_true:
  "after [Insert 0 (1::int)]
     (\<lambda>s. find_sl s 0 = Some (Inr 1) \<and> size_sl s = 1 \<and>
          (case insert_sl s 0 2 of
             Some (Inr (b, s')) \<Rightarrow>
               b \<and> size_sl s' = 2 \<and> allKeysInOrder s' = Some (Inr [0, 0])
           | _ \<Rightarrow> False))"
  by code_simp

text \<open>
  Claim C2, at the input where the code departs from it. After two inserts of key 0 the
  erase of 0 returns, and the lookup and the height of 0 still succeed afterwards.
\<close>

theorem erase_leaves_second_copy:
  "after [Insert 0 (1::int), Insert 0 2]
     (\<lambda>s. case erase s 0 of
             Some (Inr s') \<Rightarrow>
               find_sl s' 0 = Some (Inr 1) \<and> height s' 0 = Some (Inr 1) \<and> size_sl s' = 1
           | _ \<Rightarrow> False)"
  by code_simp

text \<open>
  Claim C4, at the input where the code departs from it. Two inserts of key 0 leave two
  nodes with key 0 in the base layer.
\<close>

theorem base_layer_holds_key_twice:
  "after [Insert 0 (1::int), Insert 0 2] (\<lambda>s. allKeysInOrder s = Some (Inr [0, 0]))"
  by code_simp

text \<open>
  Claim C5, at the input where the code departs from it. With the single key 0 stored,
  the successor and the predecessor query of 0 both throw runtime_error, which is not
  out_of_range.
\<close>

theorem neighbour_of_extreme_key_throws_runtime_error:
  "after [Insert 0 (1::int)]
     (\<lambda>s. nextKey s 0 = Some (Inl runtime_error) \<and>
          previousKey s 0 = Some (Inl runtime_error))"
  by code_simp

text \<open>
  Claim C3, at the input where the code departs from it: the key type \<^verbatim>\<open>int\<close> and the
  two distinct keys -5 and 0. The insert of -5 returns true. The insert of 0 then enters the
  base loop, because -5 is smaller than 0, and finds the key 0 of the front sentinel in
  \<^verbatim>\<open>tmp -> key == key\<close>: it returns false, the size stays 1 and the key 0 is not
  stored.
\<close>

theorem insert_of_zero_after_negative_key_returns_false:
  "case construct of
     Inl e \<Rightarrow> False
   | Inr s0 \<Rightarrow>
       (case insert_int s0 (- 5) (1::int) of
          Some (Inr (b, s)) \<Rightarrow>
            b \<and> size_sl s = 1 \<and> allKeysInOrder s = Some (Inr [- 5]) \<and>
            (case insert_int s 0 2 of
               Some (Inr (b', s')) \<Rightarrow>
                 \<not> b' \<and> size_sl s' = 1 \<and> allKeysInOrder s' = Some (Inr [- 5])
             | _ \<Rightarrow> False)
        | _ \<Rightarrow> False)"
  by code_simp

section \<open>Reading and writing fields\<close>

lemma deref_live: "a \<in> dom h \<Longrightarrow> deref h (Some a) = Inr (the (h a))"
  by (auto simp: deref_def)

lemma deref_null: "deref h None = Inl invalid_pointer"
  by (simp add: deref_def)

lemma bindE_Inr: "bindE (Inr x) f = f x"
  by (simp add: bindE_def)

lemma bindE_Inl: "bindE (Inl e) f = Inl e"
  by (simp add: bindE_def)

lemma bindR_Inr: "bindR (Some (Inr x)) f = f x"
  by (simp add: bindR_def)

lemma bindR_Inl: "bindR (Some (Inl e)) f = Some (Inl e)"
  by (simp add: bindR_def)

lemma bindR_None: "bindR None f = None"
  by (simp add: bindR_def)

lemmas bind_simps = bindE_Inr bindE_Inl bindR_Inr bindR_Inl bindR_None

lemma assign_nxt:
  "a \<in> dom (heap s) \<Longrightarrow>
     assign s (Some a) (\<lambda>n. n\<lparr>nxt := x\<rparr>) = Inr (s\<lparr>heap := set_nxt (heap s) a x\<rparr>)"
  by (auto simp: assign_def set_nxt_def)

lemma assign_previous:
  "a \<in> dom (heap s) \<Longrightarrow>
     assign s (Some a) (\<lambda>n. n\<lparr>previous := x\<rparr>) = Inr (s\<lparr>heap := set_previous (heap s) a x\<rparr>)"
  by (auto simp: assign_def set_previous_def)

lemma assign_up:
  "a \<in> dom (heap s) \<Longrightarrow>
     assign s (Some a) (\<lambda>n. n\<lparr>up := x\<rparr>) = Inr (s\<lparr>heap := set_up (heap s) a x\<rparr>)"
  by (auto simp: assign_def set_up_def)

lemma assign_down:
  "a \<in> dom (heap s) \<Longrightarrow>
     assign s (Some a) (\<lambda>n. n\<lparr>down := x\<rparr>) = Inr (s\<lparr>heap := set_down (heap s) a x\<rparr>)"
  by (auto simp: assign_def set_down_def)

lemmas assign_simps = assign_nxt assign_previous assign_up assign_down

lemma new_Node_eq:
  "new_Node s k v =
     (Some (fresh s), s\<lparr>heap := (heap s)(fresh s \<mapsto> fresh_node k v), fresh := Suc (fresh s)\<rparr>)"
  by (simp add: new_Node_def fresh_node_def)

lemma dom_set [simp]:
  "dom (set_nxt h a x) = insert a (dom h)"
  "dom (set_previous h a x) = insert a (dom h)"
  "dom (set_up h a x) = insert a (dom h)"
  "dom (set_down h a x) = insert a (dom h)"
  by (simp_all add: set_nxt_def set_previous_def set_up_def set_down_def)

lemma fld_set_nxt [simp]:
  "fld nxt (set_nxt h a x) = (fld nxt h)(a := x)"
  "fld previous (set_nxt h a x) = fld previous h"
  "fld up (set_nxt h a x) = fld up h"
  "fld down (set_nxt h a x) = fld down h"
  "fld key (set_nxt h a x) = fld key h"
  "fld val (set_nxt h a x) = fld val h"
  by (auto simp: fld_def set_nxt_def fun_eq_iff)

lemma fld_set_previous [simp]:
  "fld nxt (set_previous h a x) = fld nxt h"
  "fld previous (set_previous h a x) = (fld previous h)(a := x)"
  "fld up (set_previous h a x) = fld up h"
  "fld down (set_previous h a x) = fld down h"
  "fld key (set_previous h a x) = fld key h"
  "fld val (set_previous h a x) = fld val h"
  by (auto simp: fld_def set_previous_def fun_eq_iff)

lemma fld_set_up [simp]:
  "fld nxt (set_up h a x) = fld nxt h"
  "fld previous (set_up h a x) = fld previous h"
  "fld up (set_up h a x) = (fld up h)(a := x)"
  "fld down (set_up h a x) = fld down h"
  "fld key (set_up h a x) = fld key h"
  "fld val (set_up h a x) = fld val h"
  by (auto simp: fld_def set_up_def fun_eq_iff)

lemma fld_set_down [simp]:
  "fld nxt (set_down h a x) = fld nxt h"
  "fld previous (set_down h a x) = fld previous h"
  "fld up (set_down h a x) = fld up h"
  "fld down (set_down h a x) = (fld down h)(a := x)"
  "fld key (set_down h a x) = fld key h"
  "fld val (set_down h a x) = fld val h"
  by (auto simp: fld_def set_down_def fun_eq_iff)

lemma fld_new [simp]:
  "fld nxt (h(a \<mapsto> fresh_node k v)) = (fld nxt h)(a := None)"
  "fld previous (h(a \<mapsto> fresh_node k v)) = (fld previous h)(a := None)"
  "fld up (h(a \<mapsto> fresh_node k v)) = (fld up h)(a := None)"
  "fld down (h(a \<mapsto> fresh_node k v)) = (fld down h)(a := None)"
  "fld key (h(a \<mapsto> fresh_node k v)) = (fld key h)(a := k)"
  "fld val (h(a \<mapsto> fresh_node k v)) = (fld val h)(a := v)"
  by (auto simp: fld_def fresh_node_def fun_eq_iff)

lemma fld_delete:
  "b \<noteq> a \<Longrightarrow> fld f (h(a := None)) b = fld f h b"
  by (simp add: fld_def)

lemma node_fld [simp]:
  "nxt (the (h a)) = fld nxt h a"
  "previous (the (h a)) = fld previous h a"
  "up (the (h a)) = fld up h a"
  "down (the (h a)) = fld down h a"
  "key (the (h a)) = fld key h a"
  "val (the (h a)) = fld val h a"
  by (simp_all add: fld_def)

section \<open>Chains\<close>

lemma dl_append:
  "dl N P p (as @ b # bs) q \<longleftrightarrow>
     dl N P p as (Some b) \<and> dl N P (if as = [] then p else Some (last as)) (b # bs) q"
  by (induction as arbitrary: p) (auto split: list.splits)

lemma dl_upd_N: "a \<notin> set as \<Longrightarrow> dl (N(a := x)) P p as q = dl N P p as q"
  by (induction as arbitrary: p) auto

lemma dl_upd_P: "a \<notin> set as \<Longrightarrow> dl N (P(a := x)) p as q = dl N P p as q"
  by (induction as arbitrary: p) auto

lemma dl_cong:
  "(\<And>a. a \<in> set as \<Longrightarrow> N' a = N a \<and> P' a = P a) \<Longrightarrow> dl N' P' p as q = dl N P p as q"
  by (induction as arbitrary: p) auto

lemma dl_last_N: "dl N P p (as @ [a]) q \<Longrightarrow> N a = q"
  by (simp add: dl_append)

lemma dl_first_P: "dl N P p (a # as) q \<Longrightarrow> P a = p"
  by simp

lemma dl_next: "dl N P p (as @ a # b # bs) q \<Longrightarrow> N a = Some b \<and> P b = Some a"
  by (simp add: dl_append)

section \<open>Walking along one layer\<close>

lemma layer_live: "layer_ok h l \<Longrightarrow> a \<in> set l \<Longrightarrow> a \<in> dom h"
  by (auto simp: layer_ok_def)

lemma layer_next:
  "layer_ok h l \<Longrightarrow> l = A @ a # b # B \<Longrightarrow> fld nxt h a = Some b \<and> fld previous h b = Some a"
  by (simp add: layer_ok_def dl_append)

lemma layer_last_nxt: "layer_ok h l \<Longrightarrow> l = A @ [a] \<Longrightarrow> fld nxt h a = None"
  by (simp add: layer_ok_def dl_append)

lemma layer_hd_previous: "layer_ok h l \<Longrightarrow> l = a # B \<Longrightarrow> fld previous h a = None"
  by (simp add: layer_ok_def)

lemma layer_nxt_cases:
  "layer_ok h l \<Longrightarrow> l = A @ a # B \<Longrightarrow>
     fld nxt h a = (case B of [] \<Rightarrow> None | b # _ \<Rightarrow> Some b)"
  by (cases B) (simp_all add: layer_ok_def dl_append)

lemma scan_layer:
  assumes "layer_ok h l" "l = A @ tmp # B" "B \<noteq> []"
  shows "scan h k (Some tmp) =
           (case List.find (\<lambda>x. fld key h x = k) (butlast B) of
              None \<Rightarrow> Some (Inl out_of_range)
            | Some x \<Rightarrow> Some (Inr (Some x)))"
  using assms(2,3)
proof (induction B arbitrary: A tmp)
  case Nil
  then show ?case by simp
next
  case (Cons b B')
  have live: "tmp \<in> dom h" "b \<in> dom h"
    using layer_live [OF assms(1), of tmp] layer_live [OF assms(1), of b] Cons.prems
    by simp_all
  have nx: "fld nxt h tmp = Some b"
    using layer_next [OF assms(1), of A tmp b B'] Cons.prems by simp
  have nb: "fld nxt h b = (case B' of [] \<Rightarrow> None | c # _ \<Rightarrow> Some c)"
    using layer_nxt_cases [OF assms(1), of "A @ [tmp]" b B'] Cons.prems by simp
  show ?case
  proof (cases B')
    case Nil
    then show ?thesis
      using live nx nb by (subst scan.simps) (simp add: deref_live)
  next
    case (Cons c B'')
    have ih: "scan h k (Some b) =
           (case List.find (\<lambda>x. fld key h x = k) (butlast B') of
              None \<Rightarrow> Some (Inl out_of_range)
            | Some x \<Rightarrow> Some (Inr (Some x)))"
      using Cons.IH [of "A @ [tmp]" b] Cons.prems Cons by simp
    show ?thesis
      using live nx nb Cons ih by (subst scan.simps) (simp add: deref_live)
  qed
qed

lemma word_less_neq_zero: "(a :: 32 word) < k \<Longrightarrow> k \<noteq> 0"
  by auto

lemma advance_layer:
  assumes "layer_ok h l" "l = A @ tmp # B" "B \<noteq> []"
    "fld key h tmp < k \<or> fld key h tmp = 0"
  shows "\<exists>M R. B = M @ R \<and> R \<noteq> [] \<and> (\<forall>x\<in>set M. fld key h x < k) \<and>
           (tl R = [] \<or> \<not> fld key h (hd R) < k) \<and>
           advance h k (Some tmp) = Some (Inr (Position (Some (last (tmp # M)))))"
  using assms(2,3,4)
proof (induction B arbitrary: A tmp)
  case Nil
  then show ?case by simp
next
  case (Cons b B')
  have live: "tmp \<in> dom h" "b \<in> dom h"
    using layer_live [OF assms(1), of tmp] layer_live [OF assms(1), of b] Cons.prems
    by simp_all
  have nx: "fld nxt h tmp = Some b"
    using layer_next [OF assms(1), of A tmp b B'] Cons.prems by simp
  have nb: "fld nxt h b = (case B' of [] \<Rightarrow> None | c # _ \<Rightarrow> Some c)"
    using layer_nxt_cases [OF assms(1), of "A @ [tmp]" b B'] Cons.prems by simp
  show ?case
  proof (cases "B' \<noteq> [] \<and> fld key h b < k")
    case False
    then have "advance h k (Some tmp) = Some (Inr (Position (Some tmp)))"
      using live nx nb by (subst advance.simps) (auto simp: deref_live split: list.splits)
    moreover have "tl (b # B') = [] \<or> \<not> fld key h (hd (b # B')) < k"
      using False by auto
    ultimately show ?thesis
      by (intro exI [of _ "[]"] exI [of _ "b # B'"]) simp
  next
    case True
    then have ne: "fld key h tmp \<noteq> k"
      using Cons.prems(3) word_less_neq_zero [of "fld key h b" k] by auto
    from True obtain M R where ih:
      "B' = M @ R" "R \<noteq> []" "\<forall>x\<in>set M. fld key h x < k"
      "tl R = [] \<or> \<not> fld key h (hd R) < k"
      "advance h k (Some b) = Some (Inr (Position (Some (last (b # M)))))"
      using Cons.IH [of "A @ [tmp]" b] Cons.prems by auto
    have "advance h k (Some tmp) = advance h k (Some b)"
      using live nx nb True ne by (subst advance.simps) (auto simp: deref_live split: list.splits)
    then show ?thesis
      using ih True by (intro exI [of _ "b # M"] exI [of _ R]) simp
  qed
qed

lemma keys_loop_layer:
  assumes "layer_ok h l" "l = A @ x # B"
  shows "keys_loop h (Some (last l)) (Some x) acc =
           Some (Inr (acc @ map (fld key h) (butlast (x # B))))"
  using assms(2)
proof (induction B arbitrary: A x acc)
  case Nil
  then show ?case by (subst keys_loop.simps) simp
next
  case (Cons b B')
  have live: "x \<in> dom h"
    using layer_live [OF assms(1), of x] Cons.prems by simp
  have nx: "fld nxt h x = Some b"
    using layer_next [OF assms(1), of A x b B'] Cons.prems by simp
  have "distinct l" using assms(1) by (simp add: layer_ok_def)
  then have neq: "x \<noteq> last l" using Cons.prems by auto
  have ih: "keys_loop h (Some (last l)) (Some b) (acc @ [fld key h x]) =
           Some (Inr ((acc @ [fld key h x]) @ map (fld key h) (butlast (b # B'))))"
    using Cons.IH [of "A @ [x]" b] Cons.prems by simp
  show ?case
    using live nx neq ih by (subst keys_loop.simps) (simp add: deref_live)
qed

text \<open>
  The descent within one layer: it moves right over smaller keys and then continues from
  the down-link of the node it stopped at, or returns that node at the base.
\<close>

lemma descend_layer:
  assumes lay: "layer_ok h l"
    and dn: "\<And>t. t \<in> set (butlast l) \<Longrightarrow> t = hd l \<or> fld key h t < k \<Longrightarrow>
               (if fld down h t = None then Post t
                else \<exists>r. descend h k (fld down h t) = Some (Inr (Some r)) \<and> Post r)"
    and pos: "l = A @ tmp # B" "B \<noteq> []" "tmp = hd l \<or> fld key h tmp < k"
  shows "\<exists>r. descend h k (Some tmp) = Some (Inr (Some r)) \<and> Post r"
  using pos
proof (induction B arbitrary: A tmp)
  case Nil
  then show ?case by simp
next
  case (Cons b B')
  have live: "tmp \<in> dom h" "b \<in> dom h"
    using layer_live [OF lay, of tmp] layer_live [OF lay, of b] Cons.prems
    by simp_all
  have nx: "fld nxt h tmp = Some b"
    using layer_next [OF lay, of A tmp b B'] Cons.prems by simp
  have nb: "fld nxt h b = (case B' of [] \<Rightarrow> None | c # _ \<Rightarrow> Some c)"
    using layer_nxt_cases [OF lay, of "A @ [tmp]" b B'] Cons.prems by simp
  have mem: "tmp \<in> set (butlast l)"
    using Cons.prems by (simp add: butlast_append)
  note down_case = dn [OF mem Cons.prems(3)]
  show ?case
  proof (cases "fld down h tmp = None")
    case True
    then show ?thesis
      using live down_case by (subst descend.simps) (simp add: deref_live)
  next
    case notbase: False
    show ?thesis
    proof (cases "B' \<noteq> [] \<and> fld key h b < k")
      case True
      have "\<exists>r. descend h k (Some b) = Some (Inr (Some r)) \<and> Post r"
        using Cons.IH [of "A @ [tmp]" b] Cons.prems True by simp
      moreover have "descend h k (Some tmp) = descend h k (Some b)"
        using live nx nb True notbase
        by (subst descend.simps) (auto simp: deref_live split: list.splits)
      ultimately show ?thesis by simp
    next
      case False
      have "descend h k (Some tmp) = descend h k (fld down h tmp)"
        using live nx nb False notbase
        by (subst descend.simps) (auto simp: deref_live split: list.splits)
      then show ?thesis using down_case notbase by simp
    qed
  qed
qed

text \<open>Walking back to the nearest node with an up-link.\<close>

lemma walk_back_layer:
  assumes "dl (fld nxt h) (fld previous h) None (C @ [r]) q" "set (C @ [r]) \<subseteq> dom h"
    "fld up h (hd (C @ [r])) \<noteq> None"
  shows "\<exists>A' p M. C @ [r] = A' @ p # M \<and> fld up h p \<noteq> None \<and>
           (\<forall>m\<in>set M. fld up h m = None) \<and>
           walk_back h (Some r) = Some (Inr (Some p))"
  using assms
proof (induction C arbitrary: r q rule: rev_induct)
  case Nil
  then have "walk_back h (Some r) = Some (Inr (Some r))"
    by (subst walk_back.simps) (auto simp: deref_live)
  then show ?case using Nil by (intro exI [of _ "[]"] exI [of _ r]) simp
next
  case (snoc c C)
  show ?case
  proof (cases "fld up h r = None")
    case False
    then have "walk_back h (Some r) = Some (Inr (Some r))"
      using snoc.prems by (subst walk_back.simps) (auto simp: deref_live)
    then show ?thesis
      using False by (intro exI [of _ "C @ [c]"] exI [of _ r] exI [of _ "[]"]) simp
  next
    case True
    have pr: "fld previous h r = Some c"
      using snoc.prems(1) dl_next [of "fld nxt h" "fld previous h" None C c r "[]" q] by simp
    have seg: "dl (fld nxt h) (fld previous h) None (C @ [c]) (Some r)"
      using snoc.prems(1) dl_append [of "fld nxt h" "fld previous h" None "C @ [c]" r "[]" q]
      by simp
    have "hd ((C @ [c]) @ [r]) = hd (C @ [c])" by (cases C) simp_all
    then obtain A' p M where ih: "C @ [c] = A' @ p # M" "fld up h p \<noteq> None"
      "\<forall>m\<in>set M. fld up h m = None" "walk_back h (Some c) = Some (Inr (Some p))"
      using snoc.IH [OF seg] snoc.prems by auto
    have "walk_back h (Some r) = walk_back h (Some c)"
      using True pr snoc.prems by (subst walk_back.simps) (auto simp: deref_live)
    then show ?thesis
      using ih True by (intro exI [of _ A'] exI [of _ p] exI [of _ "M @ [r]"]) simp
  qed
qed

section \<open>Consequences of well-formedness\<close>

lemma wf_layer: "wf s ls \<Longrightarrow> i < length ls \<Longrightarrow> layer_ok (heap s) (ls ! i)"
  by (simp add: wf_def)

lemma wf_link:
  "wf s ls \<Longrightarrow> Suc i < length ls \<Longrightarrow>
     linkv (fld up (heap s)) (fld down (heap s)) (fld key (heap s)) (ls ! i) (ls ! Suc i)"
  by (simp add: wf_def link_def)

lemma wf_disjoint:
  assumes "wf s ls" "i < length ls" "j < length ls" "i \<noteq> j"
  shows "set (ls ! i) \<inter> set (ls ! j) = {}"
proof (cases "i < j")
  case True
  then show ?thesis using assms by (simp add: wf_def)
next
  case False
  then have "j < i" using assms(4) by simp
  then have "set (ls ! j) \<inter> set (ls ! i) = {}" using assms by (simp add: wf_def)
  then show ?thesis by blast
qed

lemma wf_ne: "wf s ls \<Longrightarrow> ls \<noteq> []"
  by (auto simp: wf_def)

lemma wf_hd: "wf s ls \<Longrightarrow> hd ls = ls ! 0"
  by (simp add: wf_ne hd_conv_nth)

lemma wf_last: "wf s ls \<Longrightarrow> last ls = ls ! (length ls - 1)"
  by (simp add: wf_ne last_conv_nth)

lemma layer_ne: "layer_ok h l \<Longrightarrow> l \<noteq> []"
  by (auto simp: layer_ok_def)

lemma layer_hd_butlast: "layer_ok h l \<Longrightarrow> hd l \<in> set (butlast l)"
  by (cases l; cases "tl l") (auto simp: layer_ok_def)

lemma layer_hd_neq_last: "layer_ok h l \<Longrightarrow> hd l \<noteq> last l"
  by (cases l; cases "tl l") (auto simp: layer_ok_def)

lemma in_butlast_iff:
  "distinct l \<Longrightarrow> a \<in> set (butlast l) \<longleftrightarrow> a \<in> set l \<and> a \<noteq> last l"
proof (cases l rule: rev_cases)
  case Nil
  then show ?thesis by simp
next
  case (snoc xs x)
  assume "distinct l"
  then show ?thesis using snoc by auto
qed

lemma in_butlast_split: "a \<in> set (butlast l) \<Longrightarrow> \<exists>A B. l = A @ a # B \<and> B \<noteq> []"
proof (cases l rule: rev_cases)
  case Nil
  assume "a \<in> set (butlast l)"
  then show ?thesis using Nil by simp
next
  case (snoc xs x)
  assume "a \<in> set (butlast l)"
  then have "a \<in> set xs" using snoc by simp
  then obtain A B where "xs = A @ a # B" by (auto dest: split_list)
  then have "l = A @ a # (B @ [x])" using snoc by simp
  then show ?thesis by blast
qed

lemma linkv_mem:
  "linkv U D K l l' \<Longrightarrow> u \<in> set l' \<Longrightarrow> \<exists>a\<in>set l. U a = Some u \<and> D u = Some a \<and> K u = K a"
  by (auto simp: linkv_def)

lemma linkv_up_mem: "linkv U D K l l' \<Longrightarrow> a \<in> set l \<Longrightarrow> U a = Some u \<Longrightarrow> u \<in> set l'"
  by (force simp: linkv_def)

lemma linkv_hd:
  assumes "linkv U D K l l'" "l \<noteq> []"
  shows "l' \<noteq> [] \<and> U (hd l) = Some (hd l')"
proof -
  obtain a rest where l: "l = a # rest" using assms(2) by (cases l) auto
  have "U a \<noteq> None" using assms(1) l by (simp add: linkv_def)
  then show ?thesis using assms(1) l by (auto simp: linkv_def)
qed

lemma linkv_last:
  assumes "linkv U D K l l'" "l \<noteq> []"
  shows "U (last l) = Some (last l')"
proof -
  obtain xs x where l: "l = xs @ [x]" using assms(2) by (cases l rule: rev_cases) auto
  have "U x \<noteq> None" using assms(1) l by (simp add: linkv_def)
  then show ?thesis using assms(1) l by (auto simp: linkv_def)
qed

lemma linkv_down_hd:
  assumes "linkv U D K l l'" "l \<noteq> []"
  shows "D (hd l') = Some (hd l) \<and> K (hd l') = K (hd l)"
proof -
  have "U (hd l) = Some (hd l')" using linkv_hd [OF assms] by simp
  moreover have "hd l \<in> set l" using assms(2) by simp
  ultimately show ?thesis using assms(1) by (auto simp: linkv_def)
qed

section \<open>Descending through the layers\<close>

lemma descend_wf:
  assumes "wf s ls"
  shows "j < length ls \<Longrightarrow> tmp \<in> set (butlast (ls ! j)) \<Longrightarrow>
         tmp = hd (ls ! j) \<or> fld key (heap s) tmp < k \<Longrightarrow>
         \<exists>r. descend (heap s) k (Some tmp) = Some (Inr (Some r)) \<and>
             r \<in> set (butlast (hd ls)) \<and> (r = hd (hd ls) \<or> fld key (heap s) r < k)"
proof (induction j arbitrary: tmp)
  case 0
  let ?Post = "\<lambda>r. r \<in> set (butlast (hd ls)) \<and> (r = hd (hd ls) \<or> fld key (heap s) r < k)"
  have lay: "layer_ok (heap s) (ls ! 0)" using wf_layer [OF assms] 0 by simp
  obtain A B where sp: "ls ! 0 = A @ tmp # B" "B \<noteq> []"
    using in_butlast_split [OF "0.prems"(2)] by blast
  have "\<forall>a\<in>set (hd ls). fld down (heap s) a = None"
    using assms by (simp add: wf_def)
  then have base: "\<forall>a\<in>set (ls ! 0). fld down (heap s) a = None"
    using wf_hd [OF assms] by simp
  have dn: "if fld down (heap s) t = None then ?Post t
         else \<exists>r. descend (heap s) k (fld down (heap s) t) = Some (Inr (Some r)) \<and> ?Post r"
    if t: "t \<in> set (butlast (ls ! 0))" "t = hd (ls ! 0) \<or> fld key (heap s) t < k" for t
  proof -
    have "t \<in> set (ls ! 0)" using t(1) by (rule in_set_butlastD)
    then have "fld down (heap s) t = None" using base by blast
    then show ?thesis using t wf_hd [OF assms] by simp
  qed
  show ?case
    by (rule descend_layer [where Post = ?Post, OF lay dn sp "0.prems"(3)])
next
  case (Suc i)
  let ?Post = "\<lambda>r. r \<in> set (butlast (hd ls)) \<and> (r = hd (hd ls) \<or> fld key (heap s) r < k)"
  have lay: "layer_ok (heap s) (ls ! Suc i)" using wf_layer [OF assms] Suc by simp
  have lay': "layer_ok (heap s) (ls ! i)" using wf_layer [OF assms] Suc by simp
  have lk: "linkv (fld up (heap s)) (fld down (heap s)) (fld key (heap s)) (ls ! i) (ls ! Suc i)"
    using wf_link [OF assms] Suc by simp
  obtain A B where sp: "ls ! Suc i = A @ tmp # B" "B \<noteq> []"
    using in_butlast_split [OF Suc.prems(2)] by blast
  have dn: "if fld down (heap s) t = None then ?Post t
         else \<exists>r. descend (heap s) k (fld down (heap s) t) = Some (Inr (Some r)) \<and> ?Post r"
    if t: "t \<in> set (butlast (ls ! Suc i))" "t = hd (ls ! Suc i) \<or> fld key (heap s) t < k" for t
  proof -
    have dist: "distinct (ls ! Suc i)" "distinct (ls ! i)"
      using lay lay' by (simp_all add: layer_ok_def)
    have tl': "t \<in> set (ls ! Suc i)" "t \<noteq> last (ls ! Suc i)"
      using t(1) in_butlast_iff [OF dist(1), of t] by simp_all
    obtain a where a: "a \<in> set (ls ! i)" "fld up (heap s) a = Some t"
      "fld down (heap s) t = Some a" "fld key (heap s) t = fld key (heap s) a"
      using linkv_mem [OF lk tl'(1)] by blast
    have ul: "fld up (heap s) (last (ls ! i)) = Some (last (ls ! Suc i))"
      by (rule linkv_last [OF lk layer_ne [OF lay']])
    have "a \<noteq> last (ls ! i)"
    proof
      assume "a = last (ls ! i)"
      then have "Some t = Some (last (ls ! Suc i))" using ul a(2) by simp
      then show False using tl'(2) by simp
    qed
    then have ab: "a \<in> set (butlast (ls ! i))"
      using a(1) in_butlast_iff [OF dist(2), of a] by simp
    have "a = hd (ls ! i) \<or> fld key (heap s) a < k"
    proof (cases "t = hd (ls ! Suc i)")
      case True
      have "fld down (heap s) (hd (ls ! Suc i)) = Some (hd (ls ! i))"
        using linkv_down_hd [OF lk layer_ne [OF lay']] by simp
      then have "Some a = Some (hd (ls ! i))" using a(3) True by simp
      then show ?thesis by simp
    next
      case False
      then have "fld key (heap s) t < k" using t(2) by simp
      then show ?thesis using a(4) by simp
    qed
    then have "\<exists>r. descend (heap s) k (Some a) = Some (Inr (Some r)) \<and> ?Post r"
      using Suc.IH [of a] Suc.prems(1) ab by simp
    then show ?thesis using a(3) by simp
  qed
  show ?case
    by (rule descend_layer [where Post = ?Post, OF lay dn sp "Suc.prems"(3)])
qed

lemma descend_top:
  assumes "wf s ls"
  shows "\<exists>r. descend (heap s) k (topFront s) = Some (Inr (Some r)) \<and>
             r \<in> set (butlast (hd ls)) \<and> (r = hd (hd ls) \<or> fld key (heap s) r < k)"
proof -
  let ?j = "length ls - 1"
  have j: "?j < length ls" using assms by (simp add: wf_def)
  have top: "topFront s = Some (hd (ls ! ?j))" using assms wf_last [OF assms] by (simp add: wf_def)
  have "hd (ls ! ?j) \<in> set (butlast (ls ! ?j))"
    using layer_hd_butlast wf_layer [OF assms j] by blast
  then show ?thesis using descend_wf [OF assms j, of "hd (ls ! ?j)" k] top by simp
qed

section \<open>Lookup\<close>

lemma find_skip: "(\<forall>x\<in>set xs. \<not> Q x) \<Longrightarrow> List.find Q (xs @ ys) = List.find Q ys"
  by (induction xs) auto

lemma sorted_prefix_less:
  fixes k :: "32 word"
  assumes "sorted (map K (xs @ r # ys))" "K r < k" "x \<in> set xs"
  shows "K x < k"
proof -
  have "K x \<le> K r" using assms(1,3) by (auto simp: sorted_append)
  then show ?thesis using assms(2) by simp
qed

text \<open>
  \<^verbatim>\<open>findNode\<close> returns the first base node with the key, and throws out_of_range
  exactly when no base node has it.
\<close>

lemma findNode_wf:
  assumes "wf s ls"
  shows "findNode s k =
           (case List.find (\<lambda>x. fld key (heap s) x = k) (inner (hd ls)) of
              None \<Rightarrow> Some (Inl out_of_range)
            | Some x \<Rightarrow> Some (Inr (Some x)))"
proof -
  obtain r where r: "descend (heap s) k (topFront s) = Some (Inr (Some r))"
    "r \<in> set (butlast (hd ls))" "r = hd (hd ls) \<or> fld key (heap s) r < k"
    using descend_top [OF assms] by blast
  have lay: "layer_ok (heap s) (hd ls)" using wf_layer [OF assms, of 0] wf_hd [OF assms] assms
    by (simp add: wf_def)
  obtain A B where sp: "hd ls = A @ r # B" "B \<noteq> []"
    using in_butlast_split [OF r(2)] by blast
  have sc: "scan (heap s) k (Some r) =
           (case List.find (\<lambda>x. fld key (heap s) x = k) (butlast B) of
              None \<Rightarrow> Some (Inl out_of_range)
            | Some x \<Rightarrow> Some (Inr (Some x)))"
    by (rule scan_layer [OF lay sp])
  have "List.find (\<lambda>x. fld key (heap s) x = k) (inner (hd ls)) =
        List.find (\<lambda>x. fld key (heap s) x = k) (butlast B)"
  proof (cases A)
    case Nil
    then show ?thesis using sp by (simp add: inner_def)
  next
    case (Cons f A')
    have inn: "inner (hd ls) = (A' @ [r]) @ butlast B"
      using sp Cons by (simp add: inner_def butlast_append)
    have "distinct (hd ls)" using lay by (simp add: layer_ok_def)
    then have "r \<noteq> hd (hd ls)" using sp Cons by auto
    then have rk: "fld key (heap s) r < k" using r(3) by simp
    have so: "sorted (map (fld key (heap s)) (A' @ r # butlast B))"
      using assms inn by (simp add: wf_def)
    have "\<forall>x\<in>set (A' @ [r]). \<not> fld key (heap s) x = k"
      using sorted_prefix_less [OF so rk] rk by auto
    then show ?thesis unfolding inn by (rule find_skip)
  qed
  then show ?thesis using r(1) sc by (simp add: findNode_def bindR_Inr)
qed

lemma find_None_iff_keys: "List.find (\<lambda>x. K x = k) xs = None \<longleftrightarrow> k \<notin> set (map K xs)"
  by (auto simp: find_None_iff)

lemma inner_subset: "a \<in> set (inner l) \<Longrightarrow> a \<in> set l"
  by (cases l) (auto simp: inner_def dest: in_set_butlastD)

section \<open>Ascending a tower\<close>

lemma height_loop_wf:
  assumes "wf s ls"
  shows "j < length ls \<Longrightarrow> a \<in> set (ls ! j) \<Longrightarrow>
         \<exists>m. height_loop (heap s) (Some a) c = Some (Inr (c + m)) \<and> j + m < length ls"
proof (induction "length ls - j" arbitrary: j a c)
  case 0
  then show ?case by simp
next
  case (Suc d)
  have live: "a \<in> dom (heap s)" using layer_live [OF wf_layer [OF assms Suc.prems(1)]] Suc.prems by simp
  show ?case
  proof (cases "fld up (heap s) a")
    case None
    then have "height_loop (heap s) (Some a) c = Some (Inr (c + 0))"
      using live by (subst height_loop.simps) (simp add: deref_live)
    then show ?thesis using Suc.prems by (intro exI [of _ 0]) simp
  next
    case (Some u)
    have "j \<noteq> length ls - 1"
    proof
      assume "j = length ls - 1"
      then have "a \<in> set (last ls)" using Suc.prems wf_last [OF assms] by simp
      then show False using assms Some by (simp add: wf_def)
    qed
    then have sj: "Suc j < length ls" using Suc.prems by simp
    have "u \<in> set (ls ! Suc j)"
      using linkv_up_mem [OF wf_link [OF assms sj] Suc.prems(2) Some] .
    moreover have "d = length ls - Suc j" using Suc.hyps(2) by simp
    ultimately obtain m where
      m: "height_loop (heap s) (Some u) (c + 1) = Some (Inr (c + 1 + m))" "Suc j + m < length ls"
      using Suc.hyps(1) [of "Suc j" u "c + 1"] sj by blast
    have "height_loop (heap s) (Some a) c = height_loop (heap s) (Some u) (c + 1)"
      using live Some by (subst height_loop.simps) (simp add: deref_live)
    then have "height_loop (heap s) (Some a) c = Some (Inr (c + Suc m))" using m(1) by simp
    then show ?thesis using m(2) by (intro exI [of _ "Suc m"]) simp
  qed
qed

section \<open>The key listing\<close>

lemma allKeysInOrder_wf:
  assumes "wf s ls"
  shows "allKeysInOrder s = Some (Inr (map (fld key (heap s)) (inner (hd ls))))"
proof -
  have lay: "layer_ok (heap s) (hd ls)" using wf_layer [OF assms, of 0] wf_hd [OF assms] assms
    by (simp add: wf_def)
  then obtain f x B where l: "hd ls = f # x # B"
    by (cases "hd ls"; cases "tl (hd ls)") (auto simp: layer_ok_def)
  have live: "f \<in> dom (heap s)" using layer_live [OF lay, of f] l by simp
  have nx: "fld nxt (heap s) f = Some x" using layer_next [OF lay, of "[]" f x B] l by simp
  have "keys_loop (heap s) (Some (last (hd ls))) (Some x) [] =
          Some (Inr ([] @ map (fld key (heap s)) (butlast (x # B))))"
    using keys_loop_layer [OF lay, of "[f]" x B "[]"] l by simp
  moreover have "s_front s = Some f" "s_back s = Some (last (hd ls))"
    using assms l by (simp_all add: wf_def)
  ultimately show ?thesis
    using live nx l by (simp add: allKeysInOrder_def deref_live inner_def)
qed

section \<open>The fresh container\<close>

lemma two_layers_disjoint:
  "(\<forall>i j. i < j \<and> j < length [l0, l1] \<longrightarrow> set ([l0, l1] ! i) \<inter> set ([l0, l1] ! j) = {}) \<longleftrightarrow>
     set l0 \<inter> set l1 = {}"
proof
  assume a: "\<forall>i j. i < j \<and> j < length [l0, l1] \<longrightarrow> set ([l0, l1] ! i) \<inter> set ([l0, l1] ! j) = {}"
  show "set l0 \<inter> set l1 = {}" using a [rule_format, of 0 1] by simp
next
  assume a: "set l0 \<inter> set l1 = {}"
  show "\<forall>i j. i < j \<and> j < length [l0, l1] \<longrightarrow> set ([l0, l1] ! i) \<inter> set ([l0, l1] ! j) = {}"
  proof (intro allI impI)
    fix i j :: nat assume "i < j \<and> j < length [l0, l1]"
    then have "i = 0" "j = 1" by simp_all
    then show "set ([l0, l1] ! i) \<inter> set ([l0, l1] ! j) = {}" using a by simp
  qed
qed

lemma two_layers_link:
  "(\<forall>i. Suc i < length [l0, l1] \<longrightarrow> link h ([l0, l1] ! i) ([l0, l1] ! Suc i)) \<longleftrightarrow> link h l0 l1"
  by (auto simp: less_Suc_eq)

lemma construct_wf:
  "\<exists>s. (construct :: error + ('v::zero) SkipList) = Inr s \<and> wf s [[0, 1], [2, 3]] \<and>
       SkipListSize s = 0 \<and> SkipListLayers s = 2"
  unfolding wf_def two_layers_disjoint two_layers_link
  by (simp add: construct_def SkipList_empty_def new_Node_eq assign_simps bind_simps
      layer_ok_def link_def linkv_def inner_def)

section \<open>Well-formedness by layer index\<close>

lemma wfI:
  assumes "length ls = SkipListLayers s" "2 \<le> length ls"
    "\<And>i. i < length ls \<Longrightarrow> layer_ok (heap s) (ls ! i)"
    "\<And>i a. i < length ls \<Longrightarrow> a \<in> set (ls ! i) \<Longrightarrow> a < fresh s"
    "\<And>i j. i < j \<Longrightarrow> j < length ls \<Longrightarrow> set (ls ! i) \<inter> set (ls ! j) = {}"
    "\<And>i. Suc i < length ls \<Longrightarrow>
       linkv (fld up (heap s)) (fld down (heap s)) (fld key (heap s)) (ls ! i) (ls ! Suc i)"
    "\<And>a. a \<in> set (ls ! (length ls - 1)) \<Longrightarrow> fld up (heap s) a = None"
    "\<And>a. a \<in> set (ls ! 0) \<Longrightarrow> fld down (heap s) a = None"
    "sorted (map (fld key (heap s)) (inner (ls ! 0)))"
    "\<And>i. i < length ls \<Longrightarrow>
       fld key (heap s) (hd (ls ! i)) = 0 \<and> fld key (heap s) (last (ls ! i)) = 0"
    "SkipListSize s + 2 = length (ls ! 0)"
    "s_front s = Some (hd (ls ! 0))" "s_back s = Some (last (ls ! 0))"
    "topFront s = Some (hd (ls ! (length ls - 1)))"
    "topBack s = Some (last (ls ! (length ls - 1)))"
  shows "wf s ls"
proof -
  have ne: "ls \<noteq> []" using assms(2) by auto
  have h: "hd ls = ls ! 0" using ne by (simp add: hd_conv_nth)
  have l: "last ls = ls ! (length ls - 1)" using ne by (simp add: last_conv_nth)
  have lay: "\<forall>l\<in>set ls. layer_ok (heap s) l \<and> (\<forall>a\<in>set l. a < fresh s)"
  proof
    fix l assume "l \<in> set ls"
    then obtain i where i: "i < length ls" "ls ! i = l" by (auto simp: in_set_conv_nth)
    show "layer_ok (heap s) l \<and> (\<forall>a\<in>set l. a < fresh s)"
      using assms(3) [OF i(1)] assms(4) [OF i(1)] i(2) by auto
  qed
  show ?thesis
    unfolding wf_def h l link_def
  proof (intro conjI)
    show "length ls = SkipListLayers s" by (rule assms(1))
    show "2 \<le> length ls" by (rule assms(2))
    show "\<forall>l\<in>set ls. layer_ok (heap s) l \<and> (\<forall>a\<in>set l. a < fresh s)" by (rule lay)
    show "\<forall>i j. i < j \<and> j < length ls \<longrightarrow> set (ls ! i) \<inter> set (ls ! j) = {}"
      using assms(5) by blast
    show "\<forall>i. Suc i < length ls \<longrightarrow>
         linkv (fld up (heap s)) (fld down (heap s)) (fld key (heap s)) (ls ! i) (ls ! Suc i)"
      using assms(6) by blast
    show "\<forall>a\<in>set (ls ! (length ls - 1)). fld up (heap s) a = None" using assms(7) by blast
    show "\<forall>a\<in>set (ls ! 0). fld down (heap s) a = None" using assms(8) by blast
    show "sorted (map (fld key (heap s)) (inner (ls ! 0)))" by (rule assms(9))
    show "\<forall>l\<in>set ls. fld key (heap s) (hd l) = 0 \<and> fld key (heap s) (last l) = 0"
    proof
      fix l assume "l \<in> set ls"
      then obtain i where i: "i < length ls" "ls ! i = l" by (auto simp: in_set_conv_nth)
      show "fld key (heap s) (hd l) = 0 \<and> fld key (heap s) (last l) = 0"
        using assms(10) [OF i(1)] i(2) by simp
    qed
    show "SkipListSize s + 2 = length (ls ! 0)" by (rule assms(11))
    show "s_front s = Some (hd (ls ! 0))" by (rule assms(12))
    show "s_back s = Some (last (ls ! 0))" by (rule assms(13))
    show "topFront s = Some (hd (ls ! (length ls - 1)))" by (rule assms(14))
    show "topBack s = Some (last (ls ! (length ls - 1)))" by (rule assms(15))
  qed
qed

lemma wf_length: "wf s ls \<Longrightarrow> length ls = SkipListLayers s \<and> 2 \<le> length ls"
  by (simp add: wf_def)

lemma wf_bound: "wf s ls \<Longrightarrow> i < length ls \<Longrightarrow> a \<in> set (ls ! i) \<Longrightarrow> a < fresh s"
  using nth_mem [of i ls] by (auto simp: wf_def)

lemma wf_live: "wf s ls \<Longrightarrow> i < length ls \<Longrightarrow> a \<in> set (ls ! i) \<Longrightarrow> a \<in> dom (heap s)"
  by (rule layer_live [OF wf_layer])

lemma wf_top: "wf s ls \<Longrightarrow> a \<in> set (ls ! (length ls - 1)) \<Longrightarrow> fld up (heap s) a = None"
  by (frule wf_last) (simp add: wf_def)

lemma wf_base: "wf s ls \<Longrightarrow> a \<in> set (ls ! 0) \<Longrightarrow> fld down (heap s) a = None"
  by (frule wf_hd) (simp add: wf_def)

lemma wf_sorted: "wf s ls \<Longrightarrow> sorted (map (fld key (heap s)) (inner (ls ! 0)))"
  by (frule wf_hd) (simp add: wf_def)

lemma wf_key0:
  "wf s ls \<Longrightarrow> i < length ls \<Longrightarrow>
     fld key (heap s) (hd (ls ! i)) = 0 \<and> fld key (heap s) (last (ls ! i)) = 0"
  using nth_mem [of i ls] by (auto simp: wf_def)

lemma wf_size: "wf s ls \<Longrightarrow> SkipListSize s + 2 = length (ls ! 0)"
  by (frule wf_hd) (simp add: wf_def)

lemma wf_ptrs:
  "wf s ls \<Longrightarrow> s_front s = Some (hd (ls ! 0)) \<and> s_back s = Some (last (ls ! 0)) \<and>
     topFront s = Some (hd (ls ! (length ls - 1))) \<and>
     topBack s = Some (last (ls ! (length ls - 1)))"
  by (frule wf_hd, frule wf_last) (simp add: wf_def)

section \<open>Changes that leave a layer alone\<close>

lemma layer_ok_frame:
  assumes "layer_ok h l" "set l \<subseteq> dom h'"
    "\<And>a. a \<in> set l \<Longrightarrow> fld nxt h' a = fld nxt h a \<and> fld previous h' a = fld previous h a"
  shows "layer_ok h' l"
proof -
  have "dl (fld nxt h') (fld previous h') None l None = dl (fld nxt h) (fld previous h) None l None"
    by (rule dl_cong) (use assms(3) in simp)
  then show ?thesis using assms(1,2) by (simp add: layer_ok_def)
qed

lemma linkv_frame:
  assumes "linkv U D K l l'" "l \<noteq> []"
    and ua: "\<And>a. a \<in> set l \<Longrightarrow> U' a = U a \<and> K' a = K a"
    and du: "\<And>u. u \<in> set l' \<Longrightarrow> D' u = D u \<and> K' u = K u"
  shows "linkv U' D' K' l l'"
proof -
  have f: "filter (\<lambda>a. U' a \<noteq> None) l = filter (\<lambda>a. U a \<noteq> None) l"
    by (rule filter_cong) (use ua in simp_all)
  have m: "map (\<lambda>a. the (U' a)) (filter (\<lambda>a. U a \<noteq> None) l) =
           map (\<lambda>a. the (U a)) (filter (\<lambda>a. U a \<noteq> None) l)"
    by (rule map_cong) (use ua in simp_all)
  have l': "l' = map (\<lambda>a. the (U' a)) (filter (\<lambda>a. U' a \<noteq> None) l)"
    using assms(1) f m by (simp add: linkv_def)
  have dk: "D' u = Some a \<and> K' u = K' a" if "a \<in> set l" "U' a = Some u" for a u
  proof -
    have eq: "U a = Some u" using that ua by simp
    then have "u \<in> set l'" using linkv_up_mem [OF assms(1) that(1)] by simp
    moreover have "D u = Some a \<and> K u = K a" using assms(1) that(1) eq by (simp add: linkv_def)
    ultimately show ?thesis using ua du that(1) by simp
  qed
  have "hd l \<in> set l" "last l \<in> set l" using assms(2) by simp_all
  then have hl: "U' (hd l) \<noteq> None \<and> U' (last l) \<noteq> None"
    using assms(1) ua by (simp add: linkv_def)
  show ?thesis
    unfolding linkv_def
  proof (intro conjI ballI allI impI)
    show "l' = map (\<lambda>a. the (U' a)) (filter (\<lambda>a. U' a \<noteq> None) l)" by (rule l')
    show "D' u = Some a" if "a \<in> set l" "U' a = Some u" for a u using dk [OF that] by simp
    show "K' u = K' a" if "a \<in> set l" "U' a = Some u" for a u using dk [OF that] by simp
    show "U' (hd l) \<noteq> None" using hl by simp
    show "U' (last l) \<noteq> None" using hl by simp
  qed
qed

section \<open>Splicing a node into a chain\<close>

lemma dl_insert:
  assumes "dl N P p (A @ t # x # B) q" "n \<notin> set (A @ t # x # B)" "distinct (A @ t # x # B)"
  shows "dl (N(n := Some x, t := Some n)) (P(n := Some t, x := Some n)) p (A @ t # n # x # B) q"
proof -
  have a: "dl N P p A (Some t)" and b: "P t = (if A = [] then p else Some (last A))"
    and c: "N t = Some x" and d: "P x = Some t"
    and e: "N x = (case B of [] \<Rightarrow> q | b # _ \<Rightarrow> Some b)" and f: "dl N P (Some x) B q"
    using assms(1) by (simp_all add: dl_append)
  have a': "dl (N(n := Some x, t := Some n)) (P(n := Some t, x := Some n)) p A (Some t)"
    using a assms(2,3) by (simp add: dl_upd_N dl_upd_P)
  have f': "dl (N(n := Some x, t := Some n)) (P(n := Some t, x := Some n)) (Some x) B q"
    using f assms(2,3) by (simp add: dl_upd_N dl_upd_P)
  have g: "dl (N(n := Some x, t := Some n)) (P(n := Some t, x := Some n))
             (if A = [] then p else Some (last A)) (t # n # x # B) q"
    using f' b c d e assms(2,3) by (simp split: list.splits)
  show ?thesis
    using a' g by (simp add: dl_append)
qed

section \<open>The splice at the base layer\<close>

lemma splice_base_run:
  assumes "t \<in> dom (heap s)" "x \<in> dom (heap s)" "fld nxt (heap s) t = Some x"
    "t \<noteq> fresh s" "x \<noteq> fresh s"
  shows "\<exists>s'. splice_base s k v (Some t) = Inr (Some (fresh s), s') \<and>
      fld nxt (heap s') = (fld nxt (heap s))(fresh s := Some x, t := Some (fresh s)) \<and>
      fld previous (heap s') = (fld previous (heap s))(fresh s := Some t, x := Some (fresh s)) \<and>
      fld up (heap s') = (fld up (heap s))(fresh s := None) \<and>
      fld down (heap s') = (fld down (heap s))(fresh s := None) \<and>
      fld key (heap s') = (fld key (heap s))(fresh s := k) \<and>
      fld val (heap s') = (fld val (heap s))(fresh s := v) \<and>
      dom (heap s') = insert (fresh s) (dom (heap s)) \<and>
      fresh s' = Suc (fresh s) \<and>
      SkipListSize s' = SkipListSize s + 1 \<and> SkipListLayers s' = SkipListLayers s \<and>
      s_front s' = s_front s \<and> s_back s' = s_back s \<and>
      topFront s' = topFront s \<and> topBack s' = topBack s"
  using assms
  by (auto simp: splice_base_def new_Node_eq assign_simps deref_live bind_simps)

lemma linkv_insert_noup:
  assumes "linkv U D K (A @ C) l'" "U n = None" "A \<noteq> []" "C \<noteq> []"
  shows "linkv U D K (A @ n # C) l'"
proof -
  have "hd (A @ n # C) = hd (A @ C)" "last (A @ n # C) = last (A @ C)"
    using assms(3,4) by simp_all
  then show ?thesis using assms(1,2) by (auto simp: linkv_def)
qed

lemma sorted_insert_mid:
  fixes k :: "32 word"
  assumes "sorted (xs @ ys)" "\<forall>y\<in>set xs. y \<le> k" "ys = [] \<or> k \<le> hd ys"
  shows "sorted (xs @ k # ys)"
proof -
  have "\<forall>y\<in>set ys. k \<le> y"
  proof (cases ys)
    case Nil
    then show ?thesis by simp
  next
    case (Cons y ys')
    then have "k \<le> y" using assms(3) by simp
    moreover have "\<forall>z\<in>set ys'. y \<le> z" using assms(1) Cons by (simp add: sorted_append)
    ultimately show ?thesis using Cons by auto
  qed
  then show ?thesis using assms(1,2) by (auto simp: sorted_append)
qed

lemma splice_base_wf:
  assumes w: "wf s ls" and l0: "ls ! 0 = A @ t # x # B"
    and lo: "\<forall>y\<in>set (tl (A @ [t])). fld key (heap s) y \<le> k"
    and hi: "B = [] \<or> k \<le> fld key (heap s) x"
  shows "\<exists>s'. splice_base s k v (Some t) = Inr (Some (fresh s), s') \<and>
      wf s' (ls[0 := A @ t # fresh s # x # B]) \<and>
      fld up (heap s') (fresh s) = None \<and>
      fld key (heap s') = (fld key (heap s))(fresh s := k) \<and>
      fld val (heap s') = (fld val (heap s))(fresh s := v) \<and>
      fresh s' = Suc (fresh s) \<and>
      SkipListSize s' = SkipListSize s + 1 \<and> SkipListLayers s' = SkipListLayers s"
proof -
  let ?n = "fresh s" and ?h = "heap s"
  let ?l0' = "A @ t # ?n # x # B"
  let ?ls' = "ls[0 := ?l0']"
  have len: "length ls = SkipListLayers s" "2 \<le> length ls" using wf_length [OF w] by simp_all
  have zero: "0 < length ls" using len by simp
  have old: "a < ?n \<and> a \<noteq> ?n \<and> a \<in> dom ?h" if "i < length ls" "a \<in> set (ls ! i)" for i a
    using wf_bound [OF w that] wf_live [OF w that] by simp
  have lay0: "layer_ok ?h (ls ! 0)" by (rule wf_layer [OF w zero])
  have t0: "t \<in> set (ls ! 0)" "x \<in> set (ls ! 0)" using l0 by simp_all
  have nx: "fld nxt ?h t = Some x" using layer_next [OF lay0 l0] by simp
  obtain s' where run: "splice_base s k v (Some t) = Inr (Some ?n, s')"
    and N: "fld nxt (heap s') = (fld nxt ?h)(?n := Some x, t := Some ?n)"
    and P: "fld previous (heap s') = (fld previous ?h)(?n := Some t, x := Some ?n)"
    and U: "fld up (heap s') = (fld up ?h)(?n := None)"
    and D: "fld down (heap s') = (fld down ?h)(?n := None)"
    and K: "fld key (heap s') = (fld key ?h)(?n := k)"
    and V: "fld val (heap s') = (fld val ?h)(?n := v)"
    and dm: "dom (heap s') = insert ?n (dom ?h)"
    and fr: "fresh s' = Suc ?n"
    and sz: "SkipListSize s' = SkipListSize s + 1" "SkipListLayers s' = SkipListLayers s"
    and pt: "s_front s' = s_front s" "s_back s' = s_back s"
            "topFront s' = topFront s" "topBack s' = topBack s"
    using splice_base_run [of t s x k v] old [OF zero t0(1)] old [OF zero t0(2)] nx by blast
  have nth': "?ls' ! i = (if i = 0 then ?l0' else ls ! i)" if "i < length ls" for i
    using that by (cases i) simp_all
  have set0: "set ?l0' = insert ?n (set (ls ! 0))" using l0 by auto
  have nfresh: "?n \<notin> set (ls ! i)" if "i < length ls" for i using old [OF that] by blast
  have other: "t \<notin> set (ls ! i) \<and> x \<notin> set (ls ! i)" if "i < length ls" "i \<noteq> 0" for i
    using wf_disjoint [OF w zero that(1)] that(2) t0 by auto
  have hd0: "hd ?l0' = hd (ls ! 0)" using l0 by (cases A) simp_all
  have last0: "last ?l0' = last (ls ! 0)" using l0 by simp
  have W: "wf s' ?ls'"
  proof (rule wfI)
    show "length ?ls' = SkipListLayers s'" using len sz by simp
    show "2 \<le> length ?ls'" using len by simp
  next
    fix i assume i: "i < length ?ls'"
    then have i': "i < length ls" by simp
    show "layer_ok (heap s') (?ls' ! i)"
    proof (cases "i = 0")
      case True
      have d: "distinct (ls ! 0)" and c: "dl (fld nxt ?h) (fld previous ?h) None (ls ! 0) None"
        and sub: "set (ls ! 0) \<subseteq> dom ?h"
        using lay0 by (simp_all add: layer_ok_def)
      have "dl (fld nxt (heap s')) (fld previous (heap s')) None ?l0' None"
        unfolding N P using c nfresh [OF zero] d unfolding l0 by (rule dl_insert)
      moreover have "distinct ?l0'" using d nfresh [OF zero] unfolding l0 by auto
      moreover have "set ?l0' \<subseteq> dom (heap s')" using sub dm set0 by auto
      ultimately show ?thesis using True nth' [OF i'] by (simp add: layer_ok_def)
    next
      case False
      have "layer_ok (heap s') (ls ! i)"
      proof (rule layer_ok_frame [OF wf_layer [OF w i']])
        show "set (ls ! i) \<subseteq> dom (heap s')" using old [OF i'] dm by auto
        show "fld nxt (heap s') a = fld nxt ?h a \<and> fld previous (heap s') a = fld previous ?h a"
          if "a \<in> set (ls ! i)" for a
          using that other [OF i' False] nfresh [OF i'] unfolding N P by auto
      qed
      then show ?thesis using False nth' [OF i'] by simp
    qed
  next
    fix i a assume i: "i < length ?ls'" and a: "a \<in> set (?ls' ! i)"
    then have i': "i < length ls" by simp
    have "a = ?n \<or> a \<in> set (ls ! i)" using a nth' [OF i'] set0 by (auto split: if_splits)
    then show "a < fresh s'"
    proof
      assume "a = ?n" then show ?thesis using fr by simp
    next
      assume "a \<in> set (ls ! i)"
      then have "a < ?n" using old [OF i'] by blast
      then show ?thesis using fr by simp
    qed
  next
    fix i j assume ij: "i < j" "j < length ?ls'"
    then have j': "j < length ls" "i < length ls" "j \<noteq> 0" by simp_all
    have dj: "set (ls ! i) \<inter> set (ls ! j) = {}" using wf_disjoint [OF w j'(2) j'(1)] ij by simp
    show "set (?ls' ! i) \<inter> set (?ls' ! j) = {}"
      using dj nth' [OF j'(1)] nth' [OF j'(2)] j'(3) set0 nfresh [OF j'(1)]
      by (auto split: if_splits)
  next
    fix i assume i: "Suc i < length ?ls'"
    then have i': "Suc i < length ls" "i < length ls" by simp_all
    have ne: "ls ! i \<noteq> []" using layer_ne [OF wf_layer [OF w i'(2)]] .
    have fr: "linkv (fld up (heap s')) (fld down (heap s')) (fld key (heap s')) (ls ! i) (ls ! Suc i)"
    proof (rule linkv_frame [OF wf_link [OF w i'(1)] ne])
      show "fld up (heap s') a = fld up ?h a \<and> fld key (heap s') a = fld key ?h a"
        if "a \<in> set (ls ! i)" for a using nfresh [OF i'(2)] that unfolding U K by auto
      show "fld down (heap s') u = fld down ?h u \<and> fld key (heap s') u = fld key ?h u"
        if "u \<in> set (ls ! Suc i)" for u using nfresh [OF i'(1)] that unfolding D K by auto
    qed
    show "linkv (fld up (heap s')) (fld down (heap s')) (fld key (heap s')) (?ls' ! i) (?ls' ! Suc i)"
    proof (cases "i = 0")
      case True
      have "linkv (fld up (heap s')) (fld down (heap s')) (fld key (heap s'))
              ((A @ [t]) @ ?n # (x # B)) (ls ! Suc 0)"
        by (rule linkv_insert_noup) (use fr True l0 U in simp_all)
      then show ?thesis using True nth' [OF i'(1)] nth' [OF i'(2)] by simp
    next
      case False
      then show ?thesis using fr nth' [OF i'(1)] nth' [OF i'(2)] by simp
    qed
  next
    fix a assume a: "a \<in> set (?ls' ! (length ?ls' - 1))"
    have "length ls - 1 < length ls" "length ls - 1 \<noteq> 0" using len by simp_all
    then have "a \<in> set (ls ! (length ls - 1))" "a \<noteq> ?n"
      using a nth' [of "length ls - 1"] nfresh [of "length ls - 1"] by auto
    then show "fld up (heap s') a = None" using wf_top [OF w] unfolding U by simp
  next
    fix a assume "a \<in> set (?ls' ! 0)"
    then have "a = ?n \<or> a \<in> set (ls ! 0)" using zero set0 by auto
    then show "fld down (heap s') a = None" using wf_base [OF w] unfolding D by auto
  next
    have inn: "inner (ls ! 0) = tl (A @ [t]) @ butlast (x # B)"
      unfolding l0 inner_def by (cases A) (simp_all add: butlast_append)
    have inn': "inner ?l0' = tl (A @ [t]) @ ?n # butlast (x # B)"
      unfolding inner_def by (cases A) (simp_all add: butlast_append)
    have nin: "?n \<notin> set (tl (A @ [t]))" "?n \<notin> set (butlast (x # B))"
      using nfresh [OF zero] unfolding l0
      by (cases A, auto dest: in_set_butlastD)
    have m1: "map (fld key (heap s')) (tl (A @ [t])) = map (fld key ?h) (tl (A @ [t]))"
      by (rule map_cong) (use nin K in auto)
    have m2: "map (fld key (heap s')) (butlast (x # B)) = map (fld key ?h) (butlast (x # B))"
      by (rule map_cong) (use nin K in auto)
    have so: "sorted (map (fld key ?h) (tl (A @ [t])) @ map (fld key ?h) (butlast (x # B)))"
      using wf_sorted [OF w] inn by simp
    have st: "sorted (map (fld key ?h) (tl (A @ [t])) @ k # map (fld key ?h) (butlast (x # B)))"
    proof (rule sorted_insert_mid [OF so])
      show "\<forall>y\<in>set (map (fld key ?h) (tl (A @ [t]))). y \<le> k" using lo by auto
      show "map (fld key ?h) (butlast (x # B)) = [] \<or> k \<le> hd (map (fld key ?h) (butlast (x # B)))"
        using hi by (cases B) simp_all
    qed
    have kn: "fld key (heap s') ?n = k" unfolding K by simp
    have "map (fld key (heap s')) (inner ?l0') =
            map (fld key (heap s')) (tl (A @ [t])) @
            fld key (heap s') ?n # map (fld key (heap s')) (butlast (x # B))"
      unfolding inn' by (simp only: map_append list.map)
    also have "\<dots> = map (fld key ?h) (tl (A @ [t])) @ k # map (fld key ?h) (butlast (x # B))"
      by (simp only: m1 m2 kn)
    finally have "sorted (map (fld key (heap s')) (inner ?l0'))" using st by simp
    moreover have "?ls' ! 0 = ?l0'" using zero by simp
    ultimately show "sorted (map (fld key (heap s')) (inner (?ls' ! 0)))" by simp
  next
    fix i assume i: "i < length ?ls'"
    then have i': "i < length ls" by simp
    have ne: "ls ! i \<noteq> []" using layer_ne [OF wf_layer [OF w i']] .
    have "hd (ls ! i) \<in> set (ls ! i)" "last (ls ! i) \<in> set (ls ! i)" using ne by simp_all
    then have "hd (ls ! i) \<noteq> ?n" "last (ls ! i) \<noteq> ?n" using nfresh [OF i'] by auto
    moreover have "hd (?ls' ! i) = hd (ls ! i)" "last (?ls' ! i) = last (ls ! i)"
      using nth' [OF i'] hd0 last0 by auto
    ultimately show "fld key (heap s') (hd (?ls' ! i)) = 0 \<and> fld key (heap s') (last (?ls' ! i)) = 0"
      using wf_key0 [OF w i'] unfolding K by simp
  next
    show "SkipListSize s' + 2 = length (?ls' ! 0)" using zero wf_size [OF w] l0 sz by simp
    show "s_front s' = Some (hd (?ls' ! 0))" using zero hd0 wf_ptrs [OF w] pt by simp
    show "s_back s' = Some (last (?ls' ! 0))" using zero last0 wf_ptrs [OF w] pt by simp
    have "length ls - 1 < length ls" "length ls - 1 \<noteq> 0" using len by simp_all
    then have "?ls' ! (length ?ls' - 1) = ls ! (length ls - 1)" by simp
    then show "topFront s' = Some (hd (?ls' ! (length ?ls' - 1)))"
      "topBack s' = Some (last (?ls' ! (length ?ls' - 1)))"
      using wf_ptrs [OF w] pt by simp_all
  qed
  show ?thesis using run W U K V fr sz by auto
qed

section \<open>Adding a spare layer\<close>

lemma grow_run:
  assumes "topFront s = Some tf" "topBack s = Some tb" "tf \<in> dom (heap s)" "tb \<in> dom (heap s)"
    "tf < fresh s" "tb < fresh s" "tf \<noteq> tb"
  shows "\<exists>s'. grow s = Inr s' \<and>
      fld nxt (heap s') = (fld nxt (heap s))(fresh s := Some (Suc (fresh s)), Suc (fresh s) := None) \<and>
      fld previous (heap s') =
        (fld previous (heap s))(fresh s := None, Suc (fresh s) := Some (fresh s)) \<and>
      fld up (heap s') =
        (fld up (heap s))(fresh s := None, Suc (fresh s) := None,
           tf := Some (fresh s), tb := Some (Suc (fresh s))) \<and>
      fld down (heap s') = (fld down (heap s))(fresh s := Some tf, Suc (fresh s) := Some tb) \<and>
      fld key (heap s') = (fld key (heap s))(fresh s := 0, Suc (fresh s) := 0) \<and>
      fld val (heap s') = (fld val (heap s))(fresh s := 0, Suc (fresh s) := 0) \<and>
      dom (heap s') = insert (fresh s) (insert (Suc (fresh s)) (dom (heap s))) \<and>
      fresh s' = Suc (Suc (fresh s)) \<and>
      SkipListSize s' = SkipListSize s \<and> SkipListLayers s' = SkipListLayers s + 1 \<and>
      s_front s' = s_front s \<and> s_back s' = s_back s \<and>
      topFront s' = Some (fresh s) \<and> topBack s' = Some (Suc (fresh s))"
  using assms
  by (auto simp: grow_def new_Node_eq assign_simps deref_live bind_simps fun_eq_iff)

lemma two_filter:
  assumes "distinct l" "2 \<le> length l" "\<forall>a\<in>set l. U a \<noteq> None \<longleftrightarrow> a = hd l \<or> a = last l"
  shows "filter (\<lambda>a. U a \<noteq> None) l = [hd l, last l]"
proof -
  obtain f r where l: "l = f # r" using assms(2) by (cases l) auto
  then have "r \<noteq> []" using assms(2) by auto
  then obtain m b where r: "r = m @ [b]" by (cases r rule: rev_cases) auto
  have "\<forall>a\<in>set m. U a = None" using assms(1,3) l r by auto
  then have "filter (\<lambda>a. U a \<noteq> None) m = []" by (simp add: filter_empty_conv)
  moreover have "U f \<noteq> None" "U b \<noteq> None" using assms(3) l r by auto
  ultimately show ?thesis using l r by simp
qed

lemma grow_wf:
  assumes w: "wf s ls"
  shows "\<exists>s'. grow s = Inr s' \<and> wf s' (ls @ [[fresh s, Suc (fresh s)]]) \<and>
      fld key (heap s') = (fld key (heap s))(fresh s := 0, Suc (fresh s) := 0) \<and>
      fld val (heap s') = (fld val (heap s))(fresh s := 0, Suc (fresh s) := 0) \<and>
      (\<forall>i a. Suc i < length ls \<longrightarrow> a \<in> set (ls ! i) \<longrightarrow> fld up (heap s') a = fld up (heap s) a) \<and>
      fresh s' = Suc (Suc (fresh s)) \<and>
      SkipListSize s' = SkipListSize s \<and> SkipListLayers s' = SkipListLayers s + 1"
proof -
  let ?n = "fresh s" and ?h = "heap s"
  let ?top = "ls ! (length ls - 1)"
  let ?new = "[?n, Suc ?n]"
  let ?ls' = "ls @ [?new]"
  have len: "length ls = SkipListLayers s" "2 \<le> length ls" using wf_length [OF w] by simp_all
  have tp: "length ls - 1 < length ls" using len by simp
  have old: "a < ?n \<and> a \<noteq> ?n \<and> a \<noteq> Suc ?n \<and> a \<in> dom ?h" if "i < length ls" "a \<in> set (ls ! i)" for i a
    using wf_bound [OF w that] wf_live [OF w that] by simp
  have layt: "layer_ok ?h ?top" by (rule wf_layer [OF w tp])
  let ?tf = "hd ?top" and ?tb = "last ?top"
  have tmem: "?tf \<in> set ?top" "?tb \<in> set ?top" using layer_ne [OF layt] by simp_all
  have tne: "?tf \<noteq> ?tb" by (rule layer_hd_neq_last [OF layt])
  obtain s' where run: "grow s = Inr s'"
    and N: "fld nxt (heap s') = (fld nxt ?h)(?n := Some (Suc ?n), Suc ?n := None)"
    and P: "fld previous (heap s') = (fld previous ?h)(?n := None, Suc ?n := Some ?n)"
    and U: "fld up (heap s') =
        (fld up ?h)(?n := None, Suc ?n := None, ?tf := Some ?n, ?tb := Some (Suc ?n))"
    and D: "fld down (heap s') = (fld down ?h)(?n := Some ?tf, Suc ?n := Some ?tb)"
    and K: "fld key (heap s') = (fld key ?h)(?n := 0, Suc ?n := 0)"
    and V: "fld val (heap s') = (fld val ?h)(?n := 0, Suc ?n := 0)"
    and dm: "dom (heap s') = insert ?n (insert (Suc ?n) (dom ?h))"
    and fr: "fresh s' = Suc (Suc ?n)"
    and sz: "SkipListSize s' = SkipListSize s" "SkipListLayers s' = SkipListLayers s + 1"
    and pt: "s_front s' = s_front s" "s_back s' = s_back s"
            "topFront s' = Some ?n" "topBack s' = Some (Suc ?n)"
    using grow_run [of s ?tf ?tb] wf_ptrs [OF w] old [OF tp tmem(1)] old [OF tp tmem(2)] tne
    by blast
  have nth': "?ls' ! i = (if i < length ls then ls ! i else ?new)" if "i \<le> length ls" for i
    using that by (simp add: nth_append)
  have below: "a \<noteq> ?tf \<and> a \<noteq> ?tb" if "Suc i < length ls" "a \<in> set (ls ! i)" for i a
  proof -
    have "set (ls ! i) \<inter> set ?top = {}"
      by (rule wf_disjoint [OF w _ tp]) (use that in simp_all)
    then show ?thesis using that(2) tmem by auto
  qed
  have Uold: "fld up (heap s') a = fld up ?h a" if "Suc i < length ls" "a \<in> set (ls ! i)" for i a
    using below [OF that] old [of i a] that unfolding U by simp
  have W: "wf s' ?ls'"
  proof (rule wfI)
    show "length ?ls' = SkipListLayers s'" using len sz by simp
    show "2 \<le> length ?ls'" using len by simp
  next
    fix i assume i: "i < length ?ls'"
    show "layer_ok (heap s') (?ls' ! i)"
    proof (cases "i < length ls")
      case True
      have "layer_ok (heap s') (ls ! i)"
      proof (rule layer_ok_frame [OF wf_layer [OF w True]])
        show "set (ls ! i) \<subseteq> dom (heap s')" using old [OF True] dm by auto
        show "fld nxt (heap s') a = fld nxt ?h a \<and> fld previous (heap s') a = fld previous ?h a"
          if "a \<in> set (ls ! i)" for a
          using old [OF True that] unfolding N P by simp
      qed
      then show ?thesis using True by (simp add: nth_append)
    next
      case False
      then have "?ls' ! i = ?new" using i by (simp add: nth_append)
      moreover have "layer_ok (heap s') ?new"
        unfolding layer_ok_def N P dm by simp
      ultimately show ?thesis by simp
    qed
  next
    fix i a assume i: "i < length ?ls'" and a: "a \<in> set (?ls' ! i)"
    show "a < fresh s'"
    proof (cases "i < length ls")
      case True
      then have "a < ?n" using old [OF True] a by (simp add: nth_append)
      then show ?thesis using fr by simp
    next
      case False
      then have "a \<in> set ?new" using a i by (simp add: nth_append)
      then show ?thesis using fr by auto
    qed
  next
    fix i j assume ij: "i < j" "j < length ?ls'"
    show "set (?ls' ! i) \<inter> set (?ls' ! j) = {}"
    proof (cases "j < length ls")
      case True
      then have "set (ls ! i) \<inter> set (ls ! j) = {}"
        using wf_disjoint [OF w _ True, of i] ij by simp
      then show ?thesis using True ij by (simp add: nth_append)
    next
      case False
      then have j: "j = length ls" using ij by simp
      have i: "i < length ls" using ij j by simp
      have "set (ls ! i) \<inter> set ?new = {}" using old [OF i] by auto
      then show ?thesis using i j by (simp add: nth_append)
    qed
  next
    fix i assume i: "Suc i < length ?ls'"
    then have i': "i < length ls" by simp
    have ne: "ls ! i \<noteq> []" using layer_ne [OF wf_layer [OF w i']] .
    show "linkv (fld up (heap s')) (fld down (heap s')) (fld key (heap s')) (?ls' ! i) (?ls' ! Suc i)"
    proof (cases "Suc i < length ls")
      case True
      have "linkv (fld up (heap s')) (fld down (heap s')) (fld key (heap s')) (ls ! i) (ls ! Suc i)"
      proof (rule linkv_frame [OF wf_link [OF w True] ne])
        show "fld up (heap s') a = fld up ?h a \<and> fld key (heap s') a = fld key ?h a"
          if "a \<in> set (ls ! i)" for a
          using Uold [OF True that] old [OF i' that] unfolding K by simp
        show "fld down (heap s') u = fld down ?h u \<and> fld key (heap s') u = fld key ?h u"
          if "u \<in> set (ls ! Suc i)" for u using old [OF True that] unfolding D K by simp
      qed
      then show ?thesis using True i' by (simp add: nth_append)
    next
      case False
      then have it: "i = length ls - 1" using i' by simp
      have d: "distinct ?top" "2 \<le> length ?top" using layt by (simp_all add: layer_ok_def)
      have up0: "fld up ?h a = None" if "a \<in> set ?top" for a using wf_top [OF w that] .
      have char: "\<forall>a\<in>set ?top. fld up (heap s') a \<noteq> None \<longleftrightarrow> a = ?tf \<or> a = ?tb"
        using up0 old [OF tp] tne unfolding U by auto
      have fil: "filter (\<lambda>a. fld up (heap s') a \<noteq> None) ?top = [?tf, ?tb]"
        by (rule two_filter [OF d char])
      have utf: "fld up (heap s') ?tf = Some ?n" "fld up (heap s') ?tb = Some (Suc ?n)"
        using tne old [OF tp tmem(1)] old [OF tp tmem(2)] unfolding U by auto
      have k0: "fld key ?h ?tf = 0" "fld key ?h ?tb = 0" using wf_key0 [OF w tp] by simp_all
      have lk: "linkv (fld up (heap s')) (fld down (heap s')) (fld key (heap s')) ?top ?new"
        unfolding linkv_def
      proof (intro conjI ballI allI impI)
        show "?new = map (\<lambda>a. the (fld up (heap s') a)) (filter (\<lambda>a. fld up (heap s') a \<noteq> None) ?top)"
          using fil utf by simp
        show "fld down (heap s') u = Some a" if "a \<in> set ?top" "fld up (heap s') a = Some u" for a u
        proof -
          have "a = ?tf \<or> a = ?tb" using char that by auto
          then show ?thesis using that(2) utf unfolding D by auto
        qed
        show "fld key (heap s') u = fld key (heap s') a"
          if "a \<in> set ?top" "fld up (heap s') a = Some u" for a u
        proof -
          have "a = ?tf \<or> a = ?tb" using char that by auto
          then show ?thesis
            using that(2) utf k0 old [OF tp tmem(1)] old [OF tp tmem(2)] unfolding K by auto
        qed
        show "fld up (heap s') ?tf \<noteq> None" using utf by simp
        show "fld up (heap s') ?tb \<noteq> None" using utf by simp
      qed
      have si: "Suc i = length ls" using it len by simp
      have "?ls' ! i = ?top" using it tp by (simp add: nth_append)
      moreover have "?ls' ! Suc i = ?new" unfolding si by simp
      ultimately show ?thesis using lk by simp
    qed
  next
    fix a assume "a \<in> set (?ls' ! (length ?ls' - 1))"
    then have "a = ?n \<or> a = Suc ?n" by simp
    then show "fld up (heap s') a = None"
      using old [OF tp tmem(1)] old [OF tp tmem(2)] unfolding U by auto
  next
    fix a assume "a \<in> set (?ls' ! 0)"
    then have a: "a \<in> set (ls ! 0)" using len by (simp add: nth_append)
    have "0 < length ls" using len by simp
    then show "fld down (heap s') a = None"
      using wf_base [OF w a] old [of 0 a] a unfolding D by simp
  next
    have z: "0 < length ls" using len by simp
    have me: "map (fld key (heap s')) (inner (ls ! 0)) = map (fld key ?h) (inner (ls ! 0))"
      by (rule map_cong) (use old [OF z] inner_subset K in auto)
    have e0: "?ls' ! 0 = ls ! 0" using z by (simp add: nth_append)
    show "sorted (map (fld key (heap s')) (inner (?ls' ! 0)))"
      unfolding e0 me by (rule wf_sorted [OF w])
  next
    fix i assume i: "i < length ?ls'"
    show "fld key (heap s') (hd (?ls' ! i)) = 0 \<and> fld key (heap s') (last (?ls' ! i)) = 0"
    proof (cases "i < length ls")
      case True
      have ne: "ls ! i \<noteq> []" using layer_ne [OF wf_layer [OF w True]] .
      have "hd (ls ! i) \<in> set (ls ! i)" "last (ls ! i) \<in> set (ls ! i)" using ne by simp_all
      then show ?thesis
        using wf_key0 [OF w True] old [OF True] True unfolding K by (simp add: nth_append)
    next
      case False
      then have "?ls' ! i = ?new" using i by (simp add: nth_append)
      then show ?thesis unfolding K by simp
    qed
  next
    have z: "0 < length ls" using len by simp
    show "SkipListSize s' + 2 = length (?ls' ! 0)" using z wf_size [OF w] sz by (simp add: nth_append)
    show "s_front s' = Some (hd (?ls' ! 0))" using z wf_ptrs [OF w] pt by (simp add: nth_append)
    show "s_back s' = Some (last (?ls' ! 0))" using z wf_ptrs [OF w] pt by (simp add: nth_append)
    show "topFront s' = Some (hd (?ls' ! (length ?ls' - 1)))" using pt by simp
    show "topBack s' = Some (last (?ls' ! (length ?ls' - 1)))" using pt by simp
  qed
  show ?thesis using run W K V Uold fr sz by blast
qed

section \<open>Lifting a key by one layer\<close>

lemma lift_run:
  assumes "p \<in> dom (heap s)" "fld up (heap s) p = Some p'" "p' \<in> dom (heap s)"
    "fld nxt (heap s) p' = Some q'" "q' \<in> dom (heap s)" "t \<in> dom (heap s)"
    "p \<noteq> fresh s" "p' \<noteq> fresh s" "q' \<noteq> fresh s" "t \<noteq> fresh s"
  shows "\<exists>s'. lift s k v (Some p) (Some t) = Inr (Some p', Some (fresh s), s') \<and>
      fld nxt (heap s') = (fld nxt (heap s))(fresh s := Some q', p' := Some (fresh s)) \<and>
      fld previous (heap s') = (fld previous (heap s))(fresh s := Some p', q' := Some (fresh s)) \<and>
      fld up (heap s') = (fld up (heap s))(fresh s := None, t := Some (fresh s)) \<and>
      fld down (heap s') = (fld down (heap s))(fresh s := Some t) \<and>
      fld key (heap s') = (fld key (heap s))(fresh s := k) \<and>
      fld val (heap s') = (fld val (heap s))(fresh s := v) \<and>
      dom (heap s') = insert (fresh s) (dom (heap s)) \<and>
      fresh s' = Suc (fresh s) \<and>
      SkipListSize s' = SkipListSize s \<and> SkipListLayers s' = SkipListLayers s \<and>
      s_front s' = s_front s \<and> s_back s' = s_back s \<and>
      topFront s' = topFront s \<and> topBack s' = topBack s"
  using assms
  by (auto simp: lift_def Let_def new_Node_eq assign_simps deref_live bind_simps fun_eq_iff)

lemma upmap_cong:
  assumes "\<And>a. a \<in> set L \<Longrightarrow> U' a = U a"
  shows "map (\<lambda>a. the (U' a)) (filter (\<lambda>a. U' a \<noteq> None) L) =
         map (\<lambda>a. the (U a)) (filter (\<lambda>a. U a \<noteq> None) L)"
proof -
  have "filter (\<lambda>a. U' a \<noteq> None) L = filter (\<lambda>a. U a \<noteq> None) L"
    by (rule filter_cong) (use assms in simp_all)
  moreover have "map (\<lambda>a. the (U' a)) (filter (\<lambda>a. U a \<noteq> None) L) =
         map (\<lambda>a. the (U a)) (filter (\<lambda>a. U a \<noteq> None) L)"
    by (rule map_cong) (use assms in simp_all)
  ultimately show ?thesis by simp
qed

lemma linkv_promote:
  assumes lk: "linkv U D K (A @ p # M @ t # B) l'"
    and up: "U p = Some p'" and noM: "\<forall>m\<in>set M. U m = None" and tU: "U t = None"
    and B: "B \<noteq> []" and d: "distinct (A @ p # M @ t # B)"
    and n: "n \<notin> set (A @ p # M @ t # B)" "n \<notin> set l'" and kt: "K t = k"
  shows "\<exists>X Y. l' = X @ p' # Y \<and> Y \<noteq> [] \<and>
           linkv (U(n := None, t := Some n)) (D(n := Some t)) (K(n := k))
             (A @ p # M @ t # B) (X @ p' # n # Y)"
proof -
  let ?U' = "U(n := None, t := Some n)"
  let ?f = "\<lambda>L. map (\<lambda>a. the (U a)) (filter (\<lambda>a. U a \<noteq> None) L)"
  let ?f' = "\<lambda>L. map (\<lambda>a. the (?U' a)) (filter (\<lambda>a. ?U' a \<noteq> None) L)"
  let ?l = "A @ p # M @ t # B"
  have fM: "filter (\<lambda>a. U a \<noteq> None) M = []" using noM by (simp add: filter_empty_conv)
  have dk: "D u = Some a \<and> K u = K a" if "a \<in> set ?l" "U a = Some u" for a u
    using lk that unfolding linkv_def by blast
  have l': "l' = ?f A @ p' # ?f B"
    using lk up tU fM by (simp add: linkv_def)
  have lastB: "last ?l = last B" using B by simp
  have "U (last B) \<noteq> None" using lk lastB by (simp add: linkv_def)
  moreover have "last B \<in> set B" using B by simp
  ultimately have "filter (\<lambda>a. U a \<noteq> None) B \<noteq> []" by (auto simp: filter_empty_conv)
  then have Yne: "?f B \<noteq> []" by simp
  have same: "?U' a = U a" if "a \<in> set A \<or> a = p \<or> a \<in> set M \<or> a \<in> set B" for a
    using that d n(1) by auto
  have eA: "?f' A = ?f A" by (rule upmap_cong) (use same in blast)
  have eB: "?f' B = ?f B" by (rule upmap_cong) (use same in blast)
  have eM: "?f' M = []"
  proof -
    have "?f' M = ?f M" by (rule upmap_cong) (use same in blast)
    then show ?thesis using fM by simp
  qed
  have up': "?U' p = Some p'" using same [of p] up by simp
  have tn: "t \<noteq> n" using n(1) by auto
  have new: "?f' ?l = ?f A @ p' # n # ?f B"
    using eA eB eM up' tn by (simp del: fun_upd_apply) (simp add: eA [symmetric] eB [symmetric])
  have hdne: "hd ?l \<noteq> t \<and> hd ?l \<noteq> n \<and> hd ?l \<in> set ?l"
    using d n(1) by (cases A) auto
  have lastne: "last ?l \<noteq> t \<and> last ?l \<noteq> n \<and> last ?l \<in> set ?l"
  proof -
    have "last B \<in> set B" using B by simp
    then show ?thesis using d n(1) lastB by auto
  qed
  have lkv: "linkv ?U' (D(n := Some t)) (K(n := k)) ?l (?f A @ p' # n # ?f B)"
    unfolding linkv_def
  proof (intro conjI ballI allI impI)
    show "?f A @ p' # n # ?f B = ?f' ?l" using new by simp
    show "(D(n := Some t)) u = Some a" if "a \<in> set ?l" "?U' a = Some u" for a u
    proof (cases "a = t")
      case True
      then show ?thesis using that(2) by simp
    next
      case False
      then have ua: "U a = Some u" using that n(1) by (auto split: if_splits)
      then have "u \<in> set l'" using linkv_up_mem [OF lk that(1)] by simp
      then have "u \<noteq> n" using n(2) by auto
      moreover have "D u = Some a" using dk [OF that(1) ua] by simp
      ultimately show ?thesis by simp
    qed
    show "(K(n := k)) u = (K(n := k)) a" if "a \<in> set ?l" "?U' a = Some u" for a u
    proof (cases "a = t")
      case True
      then show ?thesis using that(2) kt tn by simp
    next
      case False
      then have ua: "U a = Some u" using that n(1) by (auto split: if_splits)
      then have "u \<in> set l'" using linkv_up_mem [OF lk that(1)] by simp
      then have "u \<noteq> n" using n(2) by auto
      moreover have "a \<noteq> n" using that(1) n(1) by auto
      moreover have "K u = K a" using dk [OF that(1) ua] by simp
      ultimately show ?thesis by simp
    qed
    have "U (hd ?l) \<noteq> None" "U (last ?l) \<noteq> None" using lk by (simp_all add: linkv_def)
    then show "?U' (hd ?l) \<noteq> None" "?U' (last ?l) \<noteq> None" using hdne lastne by simp_all
  qed
  show ?thesis using l' Yne lkv by blast
qed

lemma lift_wf:
  assumes w: "wf s ls" and j: "Suc j < length ls"
    and lj: "ls ! j = A @ p # M @ t # B"
    and up: "fld up (heap s) p = Some p'"
    and noM: "\<forall>m\<in>set M. fld up (heap s) m = None"
    and tU: "fld up (heap s) t = None"
    and B: "B \<noteq> []" and kt: "fld key (heap s) t = k"
  shows "\<exists>X Y s'. ls ! Suc j = X @ p' # Y \<and> Y \<noteq> [] \<and>
      lift s k v (Some p) (Some t) = Inr (Some p', Some (fresh s), s') \<and>
      wf s' (ls[Suc j := X @ p' # fresh s # Y]) \<and>
      fld up (heap s') (fresh s) = None \<and>
      fld key (heap s') = (fld key (heap s))(fresh s := k) \<and>
      fld val (heap s') = (fld val (heap s))(fresh s := v) \<and>
      fresh s' = Suc (fresh s) \<and>
      SkipListSize s' = SkipListSize s \<and> SkipListLayers s' = SkipListLayers s"
proof -
  let ?n = "fresh s" and ?h = "heap s"
  have len: "length ls = SkipListLayers s" "2 \<le> length ls" using wf_length [OF w] by simp_all
  have j': "j < length ls" using j by simp
  have zero: "0 < length ls" using len by simp
  have tp: "length ls - 1 < length ls" using len by simp
  have old: "a < ?n \<and> a \<noteq> ?n \<and> a \<in> dom ?h" if "i < length ls" "a \<in> set (ls ! i)" for i a
    using wf_bound [OF w that] wf_live [OF w that] by simp
  have nfresh: "?n \<notin> set (ls ! i)" if "i < length ls" for i using old [OF that] by blast
  have layj: "layer_ok ?h (ls ! j)" by (rule wf_layer [OF w j'])
  have lay1: "layer_ok ?h (ls ! Suc j)" by (rule wf_layer [OF w j])
  have dj: "distinct (A @ p # M @ t # B)" using layj lj by (simp add: layer_ok_def)
  have nj: "?n \<notin> set (A @ p # M @ t # B)" using nfresh [OF j'] lj by simp
  obtain X Y where l1: "ls ! Suc j = X @ p' # Y" and Yne: "Y \<noteq> []"
    and lkv: "linkv ((fld up ?h)(?n := None, t := Some ?n)) ((fld down ?h)(?n := Some t))
                ((fld key ?h)(?n := k)) (A @ p # M @ t # B) (X @ p' # ?n # Y)"
    using linkv_promote [OF wf_link [OF w j, unfolded lj] up noM tU B dj nj nfresh [OF j] kt]
    by blast
  obtain q' Y' where Y: "Y = q' # Y'" using Yne by (cases Y) auto
  have l1': "ls ! Suc j = X @ p' # q' # Y'" using l1 Y by simp
  have mem: "p \<in> set (ls ! j)" "t \<in> set (ls ! j)" "p' \<in> set (ls ! Suc j)" "q' \<in> set (ls ! Suc j)"
    using lj l1' by simp_all
  have nx: "fld nxt ?h p' = Some q'" using layer_next [OF lay1 l1'] by simp
  obtain s' where run: "lift s k v (Some p) (Some t) = Inr (Some p', Some ?n, s')"
    and N: "fld nxt (heap s') = (fld nxt ?h)(?n := Some q', p' := Some ?n)"
    and P: "fld previous (heap s') = (fld previous ?h)(?n := Some p', q' := Some ?n)"
    and U: "fld up (heap s') = (fld up ?h)(?n := None, t := Some ?n)"
    and D: "fld down (heap s') = (fld down ?h)(?n := Some t)"
    and K: "fld key (heap s') = (fld key ?h)(?n := k)"
    and V: "fld val (heap s') = (fld val ?h)(?n := v)"
    and dm: "dom (heap s') = insert ?n (dom ?h)"
    and fr: "fresh s' = Suc ?n"
    and sz: "SkipListSize s' = SkipListSize s" "SkipListLayers s' = SkipListLayers s"
    and pt: "s_front s' = s_front s" "s_back s' = s_back s"
            "topFront s' = topFront s" "topBack s' = topBack s"
    using lift_run [of p s p' q' t k v] up nx
      old [OF j' mem(1)] old [OF j' mem(2)] old [OF j mem(3)] old [OF j mem(4)]
    by blast
  let ?l1' = "X @ p' # ?n # Y"
  let ?ls' = "ls[Suc j := ?l1']"
  have nth': "?ls' ! i = (if i = Suc j then ?l1' else ls ! i)" if "i < length ls" for i
    using that by (simp add: nth_list_update)
  have set1: "set ?l1' = insert ?n (set (ls ! Suc j))" using l1 by auto
  have hd1: "hd ?l1' = hd (ls ! Suc j)" using l1 by (cases X) simp_all
  have last1: "last ?l1' = last (ls ! Suc j)" using l1 Yne by simp
  have notj: "t \<notin> set (ls ! i)" if "i < length ls" "i \<noteq> j" for i
    using wf_disjoint [OF w j' that(1)] that(2) mem(2) by auto
  have not1: "p' \<notin> set (ls ! i) \<and> q' \<notin> set (ls ! i)" if "i < length ls" "i \<noteq> Suc j" for i
    using wf_disjoint [OF w j that(1)] that(2) mem(3,4) by auto
  have Uold: "fld up (heap s') a = fld up ?h a" if "i < length ls" "i \<noteq> j" "a \<in> set (ls ! i)" for i a
    using notj [OF that(1,2)] nfresh [OF that(1)] that(3) unfolding U by auto
  have DKold: "fld down (heap s') a = fld down ?h a \<and> fld key (heap s') a = fld key ?h a"
    if "i < length ls" "a \<in> set (ls ! i)" for i a
    using nfresh [OF that(1)] that(2) unfolding D K by auto
  have hdlast: "hd (?ls' ! i) = hd (ls ! i) \<and> last (?ls' ! i) = last (ls ! i)" if "i < length ls" for i
    using nth' [OF that] hd1 last1 by simp
  have e0: "?ls' ! 0 = ls ! 0" using nth' [OF zero] by simp
  have W: "wf s' ?ls'"
  proof (rule wfI)
    show "length ?ls' = SkipListLayers s'" using len sz by simp
    show "2 \<le> length ?ls'" using len by simp
  next
    fix i assume i: "i < length ?ls'"
    then have i': "i < length ls" by simp
    show "layer_ok (heap s') (?ls' ! i)"
    proof (cases "i = Suc j")
      case True
      have d: "distinct (ls ! Suc j)"
        and c: "dl (fld nxt ?h) (fld previous ?h) None (ls ! Suc j) None"
        and sub: "set (ls ! Suc j) \<subseteq> dom ?h"
        using lay1 by (simp_all add: layer_ok_def)
      have "dl (fld nxt (heap s')) (fld previous (heap s')) None (X @ p' # ?n # q' # Y') None"
        unfolding N P using c nfresh [OF j] d unfolding l1' by (rule dl_insert)
      moreover have "distinct ?l1'" using d nfresh [OF j] unfolding l1 by auto
      moreover have "set ?l1' \<subseteq> dom (heap s')" using sub dm set1 by auto
      ultimately show ?thesis using True nth' [OF i'] Y by (simp add: layer_ok_def)
    next
      case False
      have "layer_ok (heap s') (ls ! i)"
      proof (rule layer_ok_frame [OF wf_layer [OF w i']])
        show "set (ls ! i) \<subseteq> dom (heap s')" using old [OF i'] dm by auto
        show "fld nxt (heap s') a = fld nxt ?h a \<and> fld previous (heap s') a = fld previous ?h a"
          if "a \<in> set (ls ! i)" for a
          using that not1 [OF i' False] nfresh [OF i'] unfolding N P by auto
      qed
      then show ?thesis using False nth' [OF i'] by simp
    qed
  next
    fix i a assume i: "i < length ?ls'" and a: "a \<in> set (?ls' ! i)"
    then have i': "i < length ls" by simp
    have "a = ?n \<or> a \<in> set (ls ! i)" using a nth' [OF i'] set1 by (auto split: if_splits)
    then show "a < fresh s'"
    proof
      assume "a = ?n" then show ?thesis using fr by simp
    next
      assume "a \<in> set (ls ! i)"
      then have "a < ?n" using old [OF i'] by blast
      then show ?thesis using fr by simp
    qed
  next
    fix i i2 assume ij: "i < i2" "i2 < length ?ls'"
    then have b: "i2 < length ls" "i < length ls" by simp_all
    have dj: "set (ls ! i) \<inter> set (ls ! i2) = {}" using wf_disjoint [OF w b(2) b(1)] ij by simp
    have ne: "i \<noteq> i2" using ij by simp
    have s1: "set (?ls' ! i) = (if i = Suc j then insert ?n (set (ls ! i)) else set (ls ! i))"
      using nth' [OF b(2)] set1 by simp
    have s2: "set (?ls' ! i2) = (if i2 = Suc j then insert ?n (set (ls ! i2)) else set (ls ! i2))"
      using nth' [OF b(1)] set1 by simp
    show "set (?ls' ! i) \<inter> set (?ls' ! i2) = {}"
      unfolding s1 s2 using dj ne nfresh [OF b(1)] nfresh [OF b(2)] by auto
  next
    fix i assume i: "Suc i < length ?ls'"
    then have i': "Suc i < length ls" "i < length ls" by simp_all
    have ne: "ls ! i \<noteq> []" using layer_ne [OF wf_layer [OF w i'(2)]] .
    show "linkv (fld up (heap s')) (fld down (heap s')) (fld key (heap s')) (?ls' ! i) (?ls' ! Suc i)"
    proof (cases "i = j")
      case True
      have "?ls' ! i = ls ! j" "?ls' ! Suc i = ?l1'" using True nth' [OF i'(1)] nth' [OF i'(2)] by simp_all
      then show ?thesis using lkv unfolding U D K lj by simp
    next
      case False
      have fr: "linkv (fld up (heap s')) (fld down (heap s')) (fld key (heap s')) (ls ! i) (ls ! Suc i)"
      proof (rule linkv_frame [OF wf_link [OF w i'(1)] ne])
        show "fld up (heap s') a = fld up ?h a \<and> fld key (heap s') a = fld key ?h a"
          if "a \<in> set (ls ! i)" for a
          using Uold [OF i'(2) False that] DKold [OF i'(2) that] by simp
        show "fld down (heap s') u = fld down ?h u \<and> fld key (heap s') u = fld key ?h u"
          if "u \<in> set (ls ! Suc i)" for u using DKold [OF i'(1) that] .
      qed
      have s2: "?ls' ! Suc i = ls ! Suc i" using False nth' [OF i'(1)] by simp
      show ?thesis
      proof (cases "i = Suc j")
        case True
        have un: "fld up (heap s') ?n = None" using mem(2) nfresh [OF j'] unfolding U by auto
        have "linkv (fld up (heap s')) (fld down (heap s')) (fld key (heap s'))
                ((X @ [p']) @ ?n # Y) (ls ! Suc i)"
          by (rule linkv_insert_noup) (use fr True l1 un Yne in simp_all)
        then show ?thesis using True nth' [OF i'(2)] s2 by simp
      next
        case False
        then show ?thesis using fr nth' [OF i'(2)] s2 by simp
      qed
    qed
  next
    fix a assume a: "a \<in> set (?ls' ! (length ?ls' - 1))"
    then have "a = ?n \<or> a \<in> set (ls ! (length ls - 1))"
      using nth' [OF tp] set1 by (auto split: if_splits)
    then show "fld up (heap s') a = None"
    proof
      assume "a = ?n"
      then show ?thesis using mem(2) nfresh [OF j'] unfolding U by auto
    next
      assume a': "a \<in> set (ls ! (length ls - 1))"
      have "length ls - 1 \<noteq> j" using j by simp
      then show ?thesis using Uold [OF tp _ a'] wf_top [OF w a'] by simp
    qed
  next
    fix a assume "a \<in> set (?ls' ! 0)"
    then have a: "a \<in> set (ls ! 0)" using e0 by simp
    show "fld down (heap s') a = None" using DKold [OF zero a] wf_base [OF w a] by simp
  next
    have me: "map (fld key (heap s')) (inner (ls ! 0)) = map (fld key ?h) (inner (ls ! 0))"
      by (rule map_cong) (use DKold [OF zero] inner_subset in auto)
    show "sorted (map (fld key (heap s')) (inner (?ls' ! 0)))"
      unfolding e0 me by (rule wf_sorted [OF w])
  next
    fix i assume i: "i < length ?ls'"
    then have i': "i < length ls" by simp
    have ne: "ls ! i \<noteq> []" using layer_ne [OF wf_layer [OF w i']] .
    have "hd (ls ! i) \<in> set (ls ! i)" "last (ls ! i) \<in> set (ls ! i)" using ne by simp_all
    then show "fld key (heap s') (hd (?ls' ! i)) = 0 \<and> fld key (heap s') (last (?ls' ! i)) = 0"
      using wf_key0 [OF w i'] DKold [OF i'] hdlast [OF i'] by simp
  next
    show "SkipListSize s' + 2 = length (?ls' ! 0)" using wf_size [OF w] sz e0 by simp
    show "s_front s' = Some (hd (?ls' ! 0))" using wf_ptrs [OF w] pt e0 by simp
    show "s_back s' = Some (last (?ls' ! 0))" using wf_ptrs [OF w] pt e0 by simp
    show "topFront s' = Some (hd (?ls' ! (length ?ls' - 1)))"
      using wf_ptrs [OF w] pt hdlast [OF tp] by simp
    show "topBack s' = Some (last (?ls' ! (length ?ls' - 1)))"
      using wf_ptrs [OF w] pt hdlast [OF tp] by simp
  qed
  have un: "fld up (heap s') ?n = None" using mem(2) nfresh [OF j'] unfolding U by auto
  show ?thesis using l1 Yne run W un K V fr sz by blast
qed

section \<open>One round of the promotion loop\<close>

lemma extends_refl: "extends s s"
  by (simp add: extends_def)

lemma extends_trans: "extends s s' \<Longrightarrow> extends s' s'' \<Longrightarrow> extends s s''"
  by (auto simp: extends_def)

text \<open>
  The state at the head of the loop: the tower of the key ends at \<open>t\<close> in layer \<open>j\<close>,
  which is not the top layer; \<open>r\<close> is the node before \<open>t\<close>.
\<close>

lemma promote_step:
  assumes w: "wf s ls" and j: "Suc j < length ls"
    and lj: "ls ! j = A @ r # t # B" and B: "B \<noteq> []"
    and tU: "fld up (heap s) t = None" and kt: "fld key (heap s) t = k"
  shows "\<exists>s1 p s2 ls2 r2 t2 A2 B2.
      (if Suc j = SkipListLayers s - 1 then grow s else Inr s) = Inr s1 \<and>
      walk_back (heap s1) (Some r) = Some (Inr (Some p)) \<and>
      lift s1 k v (Some p) (Some t) = Inr (Some r2, Some t2, s2) \<and>
      wf s2 ls2 \<and> Suc (Suc j) < length ls2 \<and>
      ls2 ! Suc j = A2 @ r2 # t2 # B2 \<and> B2 \<noteq> [] \<and>
      fld up (heap s2) t2 = None \<and> fld key (heap s2) t2 = k \<and>
      ls2 ! 0 = ls ! 0 \<and> extends s s2 \<and>
      SkipListLayers s2 = (if Suc j = SkipListLayers s - 1 then Suc (SkipListLayers s)
                           else SkipListLayers s)"
proof -
  have len: "length ls = SkipListLayers s" "2 \<le> length ls" using wf_length [OF w] by simp_all
  have j': "j < length ls" using j by simp
  have tmem: "t \<in> set (ls ! j)" using lj by simp
  have tb: "t < fresh s" by (rule wf_bound [OF w j' tmem])
  \<comment> \<open>the optional new layer\<close>
  have "\<exists>s1 ls1. (if Suc j = SkipListLayers s - 1 then grow s else Inr s) = Inr s1 \<and>
      wf s1 ls1 \<and> Suc (Suc j) < length ls1 \<and> ls1 ! j = ls ! j \<and> ls1 ! 0 = ls ! 0 \<and>
      (\<forall>a\<in>set (ls ! j). fld up (heap s1) a = fld up (heap s) a) \<and>
      extends s s1 \<and>
      SkipListLayers s1 = (if Suc j = SkipListLayers s - 1 then Suc (SkipListLayers s)
                           else SkipListLayers s)"
  proof (cases "Suc j = SkipListLayers s - 1")
    case True
    obtain s1 where g: "grow s = Inr s1" "wf s1 (ls @ [[fresh s, Suc (fresh s)]])"
      "fld key (heap s1) = (fld key (heap s))(fresh s := 0, Suc (fresh s) := 0)"
      "fld val (heap s1) = (fld val (heap s))(fresh s := 0, Suc (fresh s) := 0)"
      "\<forall>i a. Suc i < length ls \<longrightarrow> a \<in> set (ls ! i) \<longrightarrow> fld up (heap s1) a = fld up (heap s) a"
      "fresh s1 = Suc (Suc (fresh s))" "SkipListSize s1 = SkipListSize s"
      "SkipListLayers s1 = SkipListLayers s + 1"
      using grow_wf [OF w] by blast
    have "extends s s1" using g(3,4,6,7,8) by (simp add: extends_def)
    moreover have "(ls @ [[fresh s, Suc (fresh s)]]) ! j = ls ! j"
      "(ls @ [[fresh s, Suc (fresh s)]]) ! 0 = ls ! 0"
      using j' len by (simp_all add: nth_append)
    moreover have "Suc (Suc j) < length (ls @ [[fresh s, Suc (fresh s)]])" using j by simp
    moreover have "\<forall>a\<in>set (ls ! j). fld up (heap s1) a = fld up (heap s) a" using g(5) j by blast
    ultimately show ?thesis using True g(1,2,8) by (intro exI [of _ s1] exI [of _ "ls @ [[fresh s, Suc (fresh s)]]"]) simp
  next
    case False
    then have "Suc (Suc j) < length ls" using j len by simp
    then show ?thesis using False w extends_refl [of s] by (intro exI [of _ s] exI [of _ ls]) simp
  qed
  then obtain s1 ls1 where g: "(if Suc j = SkipListLayers s - 1 then grow s else Inr s) = Inr s1"
    and w1: "wf s1 ls1" and j1: "Suc (Suc j) < length ls1" and lj1: "ls1 ! j = ls ! j"
    and l01: "ls1 ! 0 = ls ! 0"
    and U1: "\<forall>a\<in>set (ls ! j). fld up (heap s1) a = fld up (heap s) a"
    and e1: "extends s s1"
    and L1: "SkipListLayers s1 = (if Suc j = SkipListLayers s - 1 then Suc (SkipListLayers s)
                           else SkipListLayers s)"
    by blast
  have j1': "j < length ls1" "Suc j < length ls1" using j1 by simp_all
  have lay: "layer_ok (heap s1) (ls1 ! j)" by (rule wf_layer [OF w1 j1'(1)])
  have lj1': "ls1 ! j = A @ r # t # B" using lj lj1 by simp
  \<comment> \<open>walking back\<close>
  have seg: "dl (fld nxt (heap s1)) (fld previous (heap s1)) None (A @ [r]) (Some t)"
    using lay lj1' dl_append [of "fld nxt (heap s1)" "fld previous (heap s1)" None "A @ [r]" t B None]
    by (simp add: layer_ok_def)
  have sub: "set (A @ [r]) \<subseteq> dom (heap s1)" using lay lj1' by (auto simp: layer_ok_def)
  have "hd (A @ [r]) = hd (ls1 ! j)" using lj1' by (cases A) simp_all
  moreover have "fld up (heap s1) (hd (ls1 ! j)) \<noteq> None"
    using wf_link [OF w1 j1'(2)] by (simp add: linkv_def)
  ultimately have hdup: "fld up (heap s1) (hd (A @ [r])) \<noteq> None" by simp
  obtain A' p M where wb: "A @ [r] = A' @ p # M" "fld up (heap s1) p \<noteq> None"
    "\<forall>m\<in>set M. fld up (heap s1) m = None" "walk_back (heap s1) (Some r) = Some (Inr (Some p))"
    using walk_back_layer [OF seg sub hdup] by blast
  obtain p' where p': "fld up (heap s1) p = Some p'" using wb(2) by auto
  have lj2: "ls1 ! j = A' @ p # M @ t # B" using lj1' wb(1) by (metis append.assoc append_Cons append_Nil)
  have tU1: "fld up (heap s1) t = None" using U1 tmem tU by simp
  have kt1: "fld key (heap s1) t = k" using e1 tb kt by (simp add: extends_def)
  \<comment> \<open>the new node\<close>
  obtain X Y s2 where li: "ls1 ! Suc j = X @ p' # Y" "Y \<noteq> []"
    "lift s1 k v (Some p) (Some t) = Inr (Some p', Some (fresh s1), s2)"
    "wf s2 (ls1[Suc j := X @ p' # fresh s1 # Y])"
    "fld up (heap s2) (fresh s1) = None"
    "fld key (heap s2) = (fld key (heap s1))(fresh s1 := k)"
    "fld val (heap s2) = (fld val (heap s1))(fresh s1 := v)"
    "fresh s2 = Suc (fresh s1)"
    "SkipListSize s2 = SkipListSize s1" "SkipListLayers s2 = SkipListLayers s1"
    using lift_wf [OF w1 j1'(2) lj2 p' wb(3) tU1 B kt1] by blast
  let ?ls2 = "ls1[Suc j := X @ p' # fresh s1 # Y]"
  have e2: "extends s1 s2" using li(6-10) by (simp add: extends_def)
  have "?ls2 ! Suc j = X @ p' # fresh s1 # Y" using j1'(2) by simp
  moreover have "?ls2 ! 0 = ls ! 0" using l01 by simp
  moreover have "Suc (Suc j) < length ?ls2" using j1 by simp
  moreover have "fld key (heap s2) (fresh s1) = k" using li(6) by simp
  ultimately show ?thesis
    using g wb(4) li(2,3,4,5) extends_trans [OF e1 e2] L1 li(10)
    by (intro exI [of _ s1] exI [of _ p] exI [of _ s2] exI [of _ ?ls2] exI [of _ p']
        exI [of _ "fresh s1"] exI [of _ X] exI [of _ Y]) simp
qed

section \<open>The promotion loop\<close>

lemma promote_partial:
  assumes run: "promote s k v nf rT tT nl = Some y"
    and pre: "rT = Some r" "tT = Some t" "nl = Suc j" "wf s ls"
      "Suc j < length ls" "ls ! j = A @ r # t # B" "B \<noteq> []"
      "fld up (heap s) t = None" "fld key (heap s) t = k"
  shows "\<exists>s' ls'. y = Inr s' \<and> wf s' ls' \<and> ls' ! 0 = ls ! 0 \<and> extends s s'"
proof -
  define P where "P = (\<lambda>(s :: 'a SkipList) (k :: 32 word) (v :: 'a) (nf :: nat) (rT :: ptr) (tT :: ptr) (nl :: nat)
        (y :: error + 'a SkipList).
      \<forall>r t ls j A B. rT = Some r \<and> tT = Some t \<and> nl = Suc j \<and> wf s ls \<and>
           Suc j < length ls \<and> ls ! j = A @ r # t # B \<and> B \<noteq> [] \<and>
           fld up (heap s) t = None \<and> fld key (heap s) t = k \<longrightarrow>
         (\<exists>s' ls'. y = Inr s' \<and> wf s' ls' \<and> ls' ! 0 = ls ! 0 \<and> extends s s'))"
  have "P s k v nf rT tT nl y"
  proof (rule promote.raw_induct [where P = P, OF _ run])
    fix promote' :: "'a SkipList \<Rightarrow> 32 word \<Rightarrow> 'a \<Rightarrow> nat \<Rightarrow> ptr \<Rightarrow> ptr \<Rightarrow> nat \<Rightarrow> 'a SkipList result"
    fix s k v nf rT tT nl y
    assume IH: "\<And>s k v nf rT tT nl y. promote' s k v nf rT tT nl = Some y \<Longrightarrow> P s k v nf rT tT nl y"
    assume body: "(if flipCoin k nf
      then case if nl = SkipListLayers s - 1 then grow s else Inr s of
           Inl e \<Rightarrow> Some (Inl e)
           | Inr s \<Rightarrow>
               case walk_back (heap s) rT of None \<Rightarrow> None
               | Some (Inl e) \<Rightarrow> Some (Inl e)
               | Some (Inr randTmp) \<Rightarrow>
                   case lift s k v randTmp tT of Inl e \<Rightarrow> Some (Inl e)
                   | Inr (randTmp, randTmp2, s) \<Rightarrow>
                       if cap_reached s then Some (Inr s)
                       else promote' s k v (nf + 1) randTmp randTmp2 (nl + 1)
      else Some (Inr s)) = Some y"
    show "P s k v nf rT tT nl y"
      unfolding P_def
    proof (intro allI impI)
      fix r t ls j A B
      assume a: "rT = Some r \<and> tT = Some t \<and> nl = Suc j \<and> wf s ls \<and>
           Suc j < length ls \<and> ls ! j = A @ r # t # B \<and> B \<noteq> [] \<and>
           fld up (heap s) t = None \<and> fld key (heap s) t = k"
      show "\<exists>s' ls'. y = Inr s' \<and> wf s' ls' \<and> ls' ! 0 = ls ! 0 \<and> extends s s'"
      proof (cases "flipCoin k nf")
        case False
        then have "y = Inr s" using body by simp
        moreover have "wf s ls" using a by simp
        ultimately show ?thesis using extends_refl [of s] by blast
      next
        case True
        have a': "wf s ls" "Suc j < length ls" "ls ! j = A @ r # t # B" "B \<noteq> []"
           "fld up (heap s) t = None" "fld key (heap s) t = k"
          using a by simp_all
        obtain s1 p s2 ls2 r2 t2 A2 B2 where st:
          "(if Suc j = SkipListLayers s - 1 then grow s else Inr s) = Inr s1"
          "walk_back (heap s1) (Some r) = Some (Inr (Some p))"
          "lift s1 k v (Some p) (Some t) = Inr (Some r2, Some t2, s2)"
          "wf s2 ls2" "Suc (Suc j) < length ls2"
          "ls2 ! Suc j = A2 @ r2 # t2 # B2" "B2 \<noteq> []"
          "fld up (heap s2) t2 = None" "fld key (heap s2) t2 = k"
          "ls2 ! 0 = ls ! 0" "extends s s2"
          using promote_step [OF a', of v] by blast
        have nl: "nl = Suc j" "rT = Some r" "tT = Some t" using a by simp_all
        have body': "(if cap_reached s2 then Some (Inr s2)
                   else promote' s2 k v (nf + 1) (Some r2) (Some t2) (Suc (Suc j))) = Some y"
          using body True st(1,2,3) unfolding nl by (simp split: if_splits)
        show ?thesis
        proof (cases "cap_reached s2")
          case True
          then have "y = Inr s2" using body' by simp
          then show ?thesis using st(4,10,11) by blast
        next
          case False
          then have "promote' s2 k v (nf + 1) (Some r2) (Some t2) (Suc (Suc j)) = Some y"
            using body' by simp
          then have "P s2 k v (nf + 1) (Some r2) (Some t2) (Suc (Suc j)) y" by (rule IH)
          then have "\<exists>s' ls'. y = Inr s' \<and> wf s' ls' \<and> ls' ! 0 = ls2 ! 0 \<and> extends s2 s'"
            unfolding P_def using st(4-9) by blast
          then obtain s' ls' where "y = Inr s'" "wf s' ls'" "ls' ! 0 = ls2 ! 0" "extends s2 s'"
            by blast
          then show ?thesis using st(10) extends_trans [OF st(11)] by auto
        qed
      qed
    qed
  qed
  then show ?thesis unfolding P_def using pre by blast
qed

section \<open>The cap\<close>

lemma cap_reached_iff: "cap_reached s \<longleftrightarrow> SkipListLayers s = cap (SkipListSize s)"
  by (auto simp: cap_reached_def cap_def)

lemma ceil_log2_mono: "m \<le> n \<Longrightarrow> ceil_log2 m \<le> ceil_log2 n"
proof (induction n arbitrary: m rule: ceil_log2.induct)
  case (1 n)
  show ?case
  proof (cases "m \<le> 1")
    case True
    then show ?thesis by (simp add: ceil_log2.simps [of m])
  next
    case False
    then have n: "\<not> n \<le> 1" using 1(2) by simp
    have "(m + 1) div 2 \<le> (n + 1) div 2" using 1(2) by (simp add: div_le_mono)
    then have "ceil_log2 ((m + 1) div 2) \<le> ceil_log2 ((n + 1) div 2)" using 1(1) n by simp
    then show ?thesis using False n by (simp add: ceil_log2.simps [of m] ceil_log2.simps [of n])
  qed
qed

lemma ceil_log2_17: "ceil_log2 17 = 5"
  by (simp add: ceil_log2.simps)

lemma cap_ge_13: "13 \<le> cap n"
proof (cases "n \<le> 16")
  case True
  then show ?thesis by (simp add: cap_def)
next
  case False
  then have "ceil_log2 17 \<le> ceil_log2 n" by (intro ceil_log2_mono) simp
  then show ?thesis using False by (simp add: cap_def ceil_log2_17)
qed

lemma cap_mono: "m \<le> n \<Longrightarrow> cap m \<le> cap n"
proof (cases "n \<le> 16")
  case True
  assume "m \<le> n"
  then show ?thesis using True by (simp add: cap_def)
next
  case False
  assume mn: "m \<le> n"
  show ?thesis
  proof (cases "m \<le> 16")
    case True
    then show ?thesis using cap_ge_13 [of n] by (simp add: cap_def)
  next
    case m: False
    have "ceil_log2 m \<le> ceil_log2 n" using mn by (rule ceil_log2_mono)
    then show ?thesis using False m by (simp add: cap_def)
  qed
qed

text \<open>
  When the layer count is within the cap, the loop returns, with the layer count still
  within the cap; it reaches the cap when the coin never loses.
\<close>

lemma promote_total:
  assumes "wf s ls" "Suc j < length ls" "ls ! j = A @ r # t # B" "B \<noteq> []"
    "fld up (heap s) t = None" "fld key (heap s) t = k"
    "SkipListLayers s \<le> cap (SkipListSize s)"
    "Suc j = SkipListLayers s - 1 \<longrightarrow> SkipListLayers s < cap (SkipListSize s)"
  shows "\<exists>s' ls'. promote s k v nf (Some r) (Some t) (Suc j) = Some (Inr s') \<and>
           wf s' ls' \<and> ls' ! 0 = ls ! 0 \<and> extends s s' \<and>
           SkipListLayers s' \<le> cap (SkipListSize s') \<and>
           ((\<forall>i. flipCoin k i) \<longrightarrow> SkipListLayers s' = cap (SkipListSize s'))"
  using assms
proof (induction "cap (SkipListSize s) - Suc j" arbitrary: s ls j A r t B nf rule: less_induct)
  case less
  have len: "length ls = SkipListLayers s" using wf_length [OF less.prems(1)] by simp
  show ?case
  proof (cases "flipCoin k nf")
    case False
    then have "promote s k v nf (Some r) (Some t) (Suc j) = Some (Inr s)"
      by (subst promote.simps) simp
    moreover have "\<not> (\<forall>i. flipCoin k i)" using False by blast
    ultimately show ?thesis using less.prems(1,7) extends_refl [of s] by blast
  next
    case True
    obtain s1 p s2 ls2 r2 t2 A2 B2 where st:
      "(if Suc j = SkipListLayers s - 1 then grow s else Inr s) = Inr s1"
      "walk_back (heap s1) (Some r) = Some (Inr (Some p))"
      "lift s1 k v (Some p) (Some t) = Inr (Some r2, Some t2, s2)"
      "wf s2 ls2" "Suc (Suc j) < length ls2"
      "ls2 ! Suc j = A2 @ r2 # t2 # B2" "B2 \<noteq> []"
      "fld up (heap s2) t2 = None" "fld key (heap s2) t2 = k"
      "ls2 ! 0 = ls ! 0" "extends s s2"
      "SkipListLayers s2 = (if Suc j = SkipListLayers s - 1 then Suc (SkipListLayers s)
                           else SkipListLayers s)"
      using promote_step [OF less.prems(1-6), of v] by blast
    have sz: "SkipListSize s2 = SkipListSize s" using st(11) by (simp add: extends_def)
    have L2: "SkipListLayers s2 \<le> cap (SkipListSize s2)"
      using st(12) less.prems(7,8) sz by (auto split: if_splits)
    have unf: "promote s k v nf (Some r) (Some t) (Suc j) =
                 (if cap_reached s2 then Some (Inr s2)
                  else promote s2 k v (nf + 1) (Some r2) (Some t2) (Suc (Suc j)))"
      using True st(1,2,3) by (subst promote.simps) simp
    show ?thesis
    proof (cases "cap_reached s2")
      case True
      then have "SkipListLayers s2 = cap (SkipListSize s2)" by (simp add: cap_reached_iff)
      then show ?thesis using True unf st(4,10,11) L2 by auto
    next
      case False
      then have lt: "SkipListLayers s2 < cap (SkipListSize s2)"
        using L2 by (simp add: cap_reached_iff)
      have "Suc j < cap (SkipListSize s)" using less.prems(2,7) len by simp
      then have m: "cap (SkipListSize s2) - Suc (Suc j) < cap (SkipListSize s) - Suc j"
        using sz by simp
      obtain s' ls' where r: "promote s2 k v (nf + 1) (Some r2) (Some t2) (Suc (Suc j)) = Some (Inr s')"
        "wf s' ls'" "ls' ! 0 = ls2 ! 0" "extends s2 s'" "SkipListLayers s' \<le> cap (SkipListSize s')"
        "(\<forall>i. flipCoin k i) \<longrightarrow> SkipListLayers s' = cap (SkipListSize s')"
        using less.hyps [OF m st(4,5,6,7,8,9) L2, of "nf + 1"] lt by blast
      show ?thesis
        using unf False r st(10) extends_trans [OF st(11) r(4)] by auto
    qed
  qed
qed

section \<open>Insertion\<close>

text \<open>The part of \<^verbatim>\<open>insert\<close> before the promotion loop.\<close>

lemma insert_front:
  assumes w: "wf s ls"
  shows "\<exists>tmp0 t A x B sa.
      descend (heap s) k (topFront s) = Some (Inr (Some tmp0)) \<and>
      advance (heap s) k (Some tmp0) = Some (Inr (Position (Some t))) \<and>
      splice_base s k v (Some t) = Inr (Some (fresh s), sa) \<and>
      ls ! 0 = A @ t # x # B \<and>
      (\<forall>y\<in>set (tl (A @ [t])). fld key (heap s) y < k) \<and>
      (B = [] \<or> \<not> fld key (heap s) x < k) \<and>
      wf sa (ls[0 := A @ t # fresh s # x # B]) \<and>
      fld up (heap sa) (fresh s) = None \<and>
      fld key (heap sa) = (fld key (heap s))(fresh s := k) \<and>
      fld val (heap sa) = (fld val (heap s))(fresh s := v) \<and>
      fresh sa = Suc (fresh s) \<and>
      SkipListSize sa = SkipListSize s + 1 \<and> SkipListLayers sa = SkipListLayers s"
proof -
  let ?K = "fld key (heap s)"
  have zero: "0 < length ls" using wf_length [OF w] by simp
  have h0: "hd ls = ls ! 0" by (rule wf_hd [OF w])
  have lay: "layer_ok (heap s) (ls ! 0)" by (rule wf_layer [OF w zero])
  have dist: "distinct (ls ! 0)" using lay by (simp add: layer_ok_def)
  obtain r where r: "descend (heap s) k (topFront s) = Some (Inr (Some r))"
    "r \<in> set (butlast (ls ! 0))" "r = hd (ls ! 0) \<or> ?K r < k"
    using descend_top [OF w, of k] unfolding h0 by blast
  obtain A0 B0 where sp: "ls ! 0 = A0 @ r # B0" "B0 \<noteq> []"
    using in_butlast_split [OF r(2)] by blast
  have pre: "?K r < k \<or> ?K r = 0" using r(3) wf_key0 [OF w zero] by auto
  obtain M R where adv: "B0 = M @ R" "R \<noteq> []" "\<forall>x\<in>set M. ?K x < k"
    "tl R = [] \<or> \<not> ?K (hd R) < k"
    "advance (heap s) k (Some r) = Some (Inr (Position (Some (last (r # M)))))"
    using advance_layer [OF lay sp pre] by blast
  let ?t = "last (r # M)" and ?A = "A0 @ butlast (r # M)"
  obtain x B where R: "R = x # B" using adv(2) by (cases R) auto
  have rm: "r # M = butlast (r # M) @ [?t]" by (rule append_butlast_last_id [symmetric]) simp
  have l0: "ls ! 0 = ?A @ ?t # x # B"
  proof -
    have "ls ! 0 = A0 @ (r # M) @ x # B" using sp adv(1) R by simp
    also have "\<dots> = A0 @ (butlast (r # M) @ [?t]) @ x # B" using rm by simp
    finally show ?thesis by simp
  qed
  have At: "?A @ [?t] = A0 @ r # M" using rm by simp
  have lo: "\<forall>y\<in>set (tl (?A @ [?t])). ?K y < k"
  proof (cases A0)
    case Nil
    then show ?thesis unfolding At using adv(3) by simp
  next
    case (Cons f A1)
    then have "r \<noteq> hd (ls ! 0)" using dist sp by auto
    then have rk: "?K r < k" using r(3) by simp
    have "inner (ls ! 0) = A1 @ r # butlast B0" using sp Cons by (simp add: inner_def butlast_append)
    then have "sorted (map ?K (A1 @ r # butlast B0))" using wf_sorted [OF w] by simp
    then have "\<forall>y\<in>set A1. ?K y < k" using sorted_prefix_less [of ?K A1 r "butlast B0" k] rk by blast
    then show ?thesis unfolding At using Cons rk adv(3) by auto
  qed
  have hi: "B = [] \<or> \<not> ?K x < k" using adv(4) R by simp
  have lo': "\<forall>y\<in>set (tl (?A @ [?t])). ?K y \<le> k" using lo less_imp_le by blast
  have hi': "B = [] \<or> k \<le> ?K x" using hi by auto
  obtain sa where sa: "splice_base s k v (Some ?t) = Inr (Some (fresh s), sa)"
    "wf sa (ls[0 := ?A @ ?t # fresh s # x # B])"
    "fld up (heap sa) (fresh s) = None"
    "fld key (heap sa) = (fld key (heap s))(fresh s := k)"
    "fld val (heap sa) = (fld val (heap s))(fresh s := v)"
    "fresh sa = Suc (fresh s)"
    "SkipListSize sa = SkipListSize s + 1" "SkipListLayers sa = SkipListLayers s"
    using splice_base_wf [OF w l0 lo' hi', of v] by blast
  show ?thesis
    using r(1) adv(5) sa l0 lo hi
    by (intro exI [of _ r] exI [of _ ?t] exI [of _ ?A] exI [of _ x] exI [of _ B] exI [of _ sa])
       simp
qed

lemma insert_unfold:
  assumes "descend (heap s) k (topFront s) = Some (Inr (Some tmp0))"
    "advance (heap s) k (Some tmp0) = Some (Inr (Position (Some t)))"
    "splice_base s k v (Some t) = Inr (Some n, sa)"
  shows "insert_sl s k v =
           bindR (promote sa k v 0 (Some t) (Some n) 1) (\<lambda>s. Some (Inr (True, s)))"
  using assms by (simp add: insert_sl_def bind_simps)

lemma inserted_intro:
  assumes w: "wf s ls" and l0: "ls ! 0 = A @ t # x # B"
    and lo: "\<forall>y\<in>set (tl (A @ [t])). fld key (heap s) y < k"
    and hi: "B = [] \<or> \<not> fld key (heap s) x < k"
    and ka: "fld key (heap sa) = (fld key (heap s))(fresh s := k)"
    and va: "fld val (heap sa) = (fld val (heap s))(fresh s := v)"
    and fa: "fresh sa = Suc (fresh s)"
    and za: "SkipListSize sa = SkipListSize s + 1" "SkipListLayers sa = SkipListLayers s"
    and w': "wf s' ls'" and b: "ls' ! 0 = (ls[0 := A @ t # fresh s # x # B]) ! 0"
    and e: "extends sa s'"
  shows "inserted s ls k v s' ls'"
proof -
  have zero: "0 < length ls" using wf_length [OF w] by simp
  have b': "ls' ! 0 = (A @ [t]) @ fresh s # (x # B)" using b zero by simp
  have l0': "ls ! 0 = (A @ [t]) @ (x # B)" using l0 by simp
  have kv: "fld key (heap s') a = fld key (heap sa) a \<and> fld val (heap s') a = fld val (heap sa) a"
    if "a < Suc (fresh s)" for a using e fa that by (simp add: extends_def)
  have old: "\<forall>a<fresh s. fld key (heap s') a = fld key (heap s) a \<and>
                  fld val (heap s') a = fld val (heap s) a"
    using kv ka va by auto
  have new: "fld key (heap s') (fresh s) = k" "fld val (heap s') (fresh s) = v"
    using kv [of "fresh s"] ka va by simp_all
  have sz: "SkipListSize s' = SkipListSize s + 1" "SkipListLayers s \<le> SkipListLayers s'"
    using e za by (simp_all add: extends_def)
  have "\<exists>A' C. ls ! 0 = A' @ C \<and> ls' ! 0 = A' @ fresh s # C \<and> A' \<noteq> [] \<and> C \<noteq> [] \<and>
        (\<forall>y\<in>set (tl A'). fld key (heap s) y < k) \<and>
        (tl C = [] \<or> \<not> fld key (heap s) (hd C) < k)"
    using l0' b' lo hi by (intro exI [of _ "A @ [t]"] exI [of _ "x # B"]) simp
  then show ?thesis unfolding inserted_def using w' old new sz by blast
qed

text \<open>Whenever \<^verbatim>\<open>insert\<close> returns, it returns true and has added the node.\<close>

lemma insert_partial:
  assumes w: "wf s ls" and run: "insert_sl s k v = Some y"
  shows "\<exists>s' ls'. y = Inr (True, s') \<and> inserted s ls k v s' ls'"
proof -
  obtain tmp0 t A x B sa where f:
      "descend (heap s) k (topFront s) = Some (Inr (Some tmp0))"
      "advance (heap s) k (Some tmp0) = Some (Inr (Position (Some t)))"
      "splice_base s k v (Some t) = Inr (Some (fresh s), sa)"
      "ls ! 0 = A @ t # x # B"
      "\<forall>y\<in>set (tl (A @ [t])). fld key (heap s) y < k"
      "B = [] \<or> \<not> fld key (heap s) x < k"
      "wf sa (ls[0 := A @ t # fresh s # x # B])"
      "fld up (heap sa) (fresh s) = None"
      "fld key (heap sa) = (fld key (heap s))(fresh s := k)"
      "fld val (heap sa) = (fld val (heap s))(fresh s := v)"
      "fresh sa = Suc (fresh s)"
      "SkipListSize sa = SkipListSize s + 1" "SkipListLayers sa = SkipListLayers s"
    using insert_front [OF w, of k v] by blast
  let ?lsa = "ls[0 := A @ t # fresh s # x # B]"
  have len: "2 \<le> length ls" "0 < length ls" using wf_length [OF w] by simp_all
  have unf: "insert_sl s k v =
           bindR (promote sa k v 0 (Some t) (Some (fresh s)) 1) (\<lambda>s. Some (Inr (True, s)))"
    by (rule insert_unfold [OF f(1,2,3)])
  obtain z where z: "promote sa k v 0 (Some t) (Some (fresh s)) 1 = Some z"
    using run unf by (cases "promote sa k v 0 (Some t) (Some (fresh s)) 1") (simp_all add: bind_simps)
  have p: "?lsa ! 0 = A @ t # fresh s # (x # B)" "Suc 0 < length ?lsa" "x # B \<noteq> []"
    "fld key (heap sa) (fresh s) = k"
    using len f(9) by simp_all
  obtain s' ls' where post: "z = Inr s'" "wf s' ls'" "ls' ! 0 = ?lsa ! 0" "extends sa s'"
    using promote_partial [OF z refl refl _ f(7) p(2) p(1) p(3) f(8) p(4)] by auto
  have "y = Inr (True, s')" using run unf z post(1) by (simp add: bind_simps)
  moreover have "inserted s ls k v s' ls'"
    by (rule inserted_intro [OF w f(4,5,6,9,10,11,12,13) post(2,3,4)])
  ultimately show ?thesis by blast
qed

text \<open>
  While the layer count is within the cap, \<^verbatim>\<open>insert\<close> returns, and the layer count stays
  within the cap; it reaches the cap when the coin never loses.
\<close>

lemma insert_total:
  assumes w: "wf s ls" and c: "SkipListLayers s \<le> cap (SkipListSize s)"
  shows "\<exists>s' ls'. insert_sl s k v = Some (Inr (True, s')) \<and> inserted s ls k v s' ls' \<and>
           SkipListLayers s' \<le> cap (SkipListSize s') \<and>
           ((\<forall>i. flipCoin k i) \<longrightarrow> SkipListLayers s' = cap (SkipListSize s'))"
proof -
  obtain tmp0 t A x B sa where f:
      "descend (heap s) k (topFront s) = Some (Inr (Some tmp0))"
      "advance (heap s) k (Some tmp0) = Some (Inr (Position (Some t)))"
      "splice_base s k v (Some t) = Inr (Some (fresh s), sa)"
      "ls ! 0 = A @ t # x # B"
      "\<forall>y\<in>set (tl (A @ [t])). fld key (heap s) y < k"
      "B = [] \<or> \<not> fld key (heap s) x < k"
      "wf sa (ls[0 := A @ t # fresh s # x # B])"
      "fld up (heap sa) (fresh s) = None"
      "fld key (heap sa) = (fld key (heap s))(fresh s := k)"
      "fld val (heap sa) = (fld val (heap s))(fresh s := v)"
      "fresh sa = Suc (fresh s)"
      "SkipListSize sa = SkipListSize s + 1" "SkipListLayers sa = SkipListLayers s"
    using insert_front [OF w, of k v] by blast
  let ?lsa = "ls[0 := A @ t # fresh s # x # B]"
  have len: "2 \<le> length ls" "0 < length ls" "length ls = SkipListLayers s"
    using wf_length [OF w] by simp_all
  have unf: "insert_sl s k v =
           bindR (promote sa k v 0 (Some t) (Some (fresh s)) 1) (\<lambda>s. Some (Inr (True, s)))"
    by (rule insert_unfold [OF f(1,2,3)])
  have p: "?lsa ! 0 = A @ t # fresh s # (x # B)" "Suc 0 < length ?lsa" "x # B \<noteq> []"
    "fld key (heap sa) (fresh s) = k"
    using len f(9) by simp_all
  have c1: "SkipListLayers sa \<le> cap (SkipListSize sa)"
    using c cap_mono [of "SkipListSize s" "SkipListSize s + 1"] f(12,13) by simp
  have c2: "Suc 0 = SkipListLayers sa - 1 \<longrightarrow> SkipListLayers sa < cap (SkipListSize sa)"
    using cap_ge_13 [of "SkipListSize sa"] by auto
  obtain s' ls' where post: "promote sa k v 0 (Some t) (Some (fresh s)) (Suc 0) = Some (Inr s')"
    "wf s' ls'" "ls' ! 0 = ?lsa ! 0" "extends sa s'" "SkipListLayers s' \<le> cap (SkipListSize s')"
    "(\<forall>i. flipCoin k i) \<longrightarrow> SkipListLayers s' = cap (SkipListSize s')"
    using promote_total [OF f(7) p(2) p(1) p(3) f(8) p(4) c1 c2, of v 0] by blast
  have "insert_sl s k v = Some (Inr (True, s'))" using unf post(1) by (simp add: bind_simps)
  moreover have "inserted s ls k v s' ls'"
    by (rule inserted_intro [OF w f(4,5,6,9,10,11,12,13) post(2,3,4)])
  ultimately show ?thesis using post(5,6) by blast
qed

section \<open>What an insertion does to the key listing and to lookup\<close>

lemma insort_mid:
  fixes k :: "'a::linorder"
  assumes "\<forall>y\<in>set xs. y < k" "ys = [] \<or> k \<le> hd ys"
  shows "insort k (xs @ ys) = xs @ k # ys"
  using assms
proof (induction xs)
  case Nil
  then show ?case by (cases ys) simp_all
next
  case (Cons x xs)
  then have "\<not> k \<le> x" by auto
  then show ?case using Cons by simp
qed

lemma inner_append:
  assumes "A \<noteq> []" "C \<noteq> []"
  shows "inner (A @ C) = tl A @ butlast C" "inner (A @ n # C) = tl A @ n # butlast C"
  using assms by (cases A; simp add: inner_def butlast_append)+

lemma inserted_wf: "inserted s ls k v s' ls' \<Longrightarrow> wf s' ls'"
  by (simp add: inserted_def)

lemma inserted_size:
  "inserted s ls k v s' ls' \<Longrightarrow>
     SkipListSize s' = SkipListSize s + 1 \<and> SkipListLayers s \<le> SkipListLayers s'"
  by (simp add: inserted_def)

lemma inserted_keys:
  assumes w: "wf s ls" and i: "inserted s ls k v s' ls'"
  shows "map (fld key (heap s')) (inner (ls' ! 0)) = insort k (map (fld key (heap s)) (inner (ls ! 0)))"
proof -
  let ?K = "fld key (heap s)" and ?K' = "fld key (heap s')" and ?n = "fresh s"
  obtain A C where ac: "ls ! 0 = A @ C" "ls' ! 0 = A @ ?n # C" "A \<noteq> []" "C \<noteq> []"
    "\<forall>y\<in>set (tl A). ?K y < k" "tl C = [] \<or> \<not> ?K (hd C) < k"
    using i unfolding inserted_def by blast
  have kn: "?K' ?n = k" and old: "\<forall>a<?n. ?K' a = ?K a"
    using i unfolding inserted_def by blast+
  have zero: "0 < length ls" using wf_length [OF w] by simp
  have bnd: "a < ?n" if "a \<in> set (ls ! 0)" for a using wf_bound [OF w zero that] .
  have m1: "map ?K' (tl A) = map ?K (tl A)"
  proof (rule map_cong [OF refl])
    fix a assume "a \<in> set (tl A)"
    then have "a \<in> set (ls ! 0)" using ac(1,3) by (auto dest: list.set_sel(2))
    then show "?K' a = ?K a" using bnd old by blast
  qed
  have m2: "map ?K' (butlast C) = map ?K (butlast C)"
  proof (rule map_cong [OF refl])
    fix a assume "a \<in> set (butlast C)"
    then have "a \<in> set (ls ! 0)" using ac(1) by (auto dest: in_set_butlastD)
    then show "?K' a = ?K a" using bnd old by blast
  qed
  have "map ?K' (inner (ls' ! 0)) = map ?K' (tl A) @ ?K' ?n # map ?K' (butlast C)"
    unfolding ac(2) inner_append(2) [OF ac(3,4)] by simp
  also have "\<dots> = map ?K (tl A) @ k # map ?K (butlast C)" by (simp only: m1 m2 kn)
  also have "\<dots> = insort k (map ?K (tl A) @ map ?K (butlast C))"
  proof (rule insort_mid [symmetric])
    show "\<forall>y\<in>set (map ?K (tl A)). y < k" using ac(5) by simp
    show "map ?K (butlast C) = [] \<or> k \<le> hd (map ?K (butlast C))"
    proof (cases "tl C = []")
      case True
      then have "butlast C = []" using ac(4) by (cases C) simp_all
      then show ?thesis by simp
    next
      case False
      then have "hd (butlast C) = hd C" "butlast C \<noteq> []" using ac(4) by (cases C; simp)+
      then have "hd (map ?K (butlast C)) = ?K (hd C)" by (simp add: hd_map)
      then show ?thesis using ac(6) False by (simp add: not_less)
    qed
  qed
  also have "\<dots> = insort k (map ?K (inner (ls ! 0)))"
    unfolding ac(1) inner_append(1) [OF ac(3,4)] by simp
  finally show ?thesis .
qed

lemma inserted_findNode:
  assumes w: "wf s ls" and i: "inserted s ls k v s' ls'"
  shows "findNode s' k = Some (Inr (Some (fresh s)))"
proof -
  let ?K = "fld key (heap s)" and ?K' = "fld key (heap s')" and ?n = "fresh s"
  obtain A C where ac: "ls ! 0 = A @ C" "ls' ! 0 = A @ ?n # C" "A \<noteq> []" "C \<noteq> []"
    "\<forall>y\<in>set (tl A). ?K y < k"
    using i unfolding inserted_def by blast
  have kn: "?K' ?n = k" and old: "\<forall>a<?n. ?K' a = ?K a"
    using i unfolding inserted_def by blast+
  have w': "wf s' ls'" by (rule inserted_wf [OF i])
  have zero: "0 < length ls" using wf_length [OF w] by simp
  have bnd: "a < ?n" if "a \<in> set (ls ! 0)" for a using wf_bound [OF w zero that] .
  have skip: "\<forall>a\<in>set (tl A). \<not> ?K' a = k"
  proof
    fix a assume a: "a \<in> set (tl A)"
    then have "a \<in> set (ls ! 0)" using ac(1,3) by (auto dest: list.set_sel(2))
    then have "?K' a = ?K a" using bnd old by blast
    then show "\<not> ?K' a = k" using ac(5) a by auto
  qed
  have "List.find (\<lambda>x. ?K' x = k) (inner (ls' ! 0)) = List.find (\<lambda>x. ?K' x = k) (?n # butlast C)"
    unfolding ac(2) inner_append(2) [OF ac(3,4)] using skip by (rule find_skip)
  then have "List.find (\<lambda>x. ?K' x = k) (inner (hd ls')) = Some ?n"
    using kn wf_hd [OF w'] by simp
  then show ?thesis using findNode_wf [OF w', of k] by simp
qed

lemma inserted_find:
  assumes w: "wf s ls" and i: "inserted s ls k v s' ls'"
  shows "find_sl s' k = Some (Inr v)"
proof -
  have w': "wf s' ls'" by (rule inserted_wf [OF i])
  have zero: "0 < length ls'" using wf_length [OF w'] by simp
  have "fresh s \<in> set (ls' ! 0)" using i unfolding inserted_def by auto
  then have live: "fresh s \<in> dom (heap s')" by (rule wf_live [OF w' zero])
  have "fld val (heap s') (fresh s) = v" using i unfolding inserted_def by blast
  then show ?thesis
    using inserted_findNode [OF w i] live by (simp add: find_sl_def bind_simps deref_live)
qed

section \<open>Runs of insertions\<close>

lemma run_Insert:
  "insert_sl s k v = Some (Inr (b, s')) \<Longrightarrow>
     run (Some (Inr s)) (Insert k v # ops) = run (Some (Inr s')) ops"
  by (simp add: bind_simps)

lemma run_inserts:
  assumes "wf s ls" "SkipListLayers s \<le> cap (SkipListSize s)"
  shows "\<exists>s' ls'. run (Some (Inr s)) (map (\<lambda>(k, v). Insert k v) kvs) = Some (Inr s') \<and>
           wf s' ls' \<and> SkipListLayers s' \<le> cap (SkipListSize s') \<and>
           SkipListSize s' = SkipListSize s + length kvs \<and>
           map (fld key (heap s')) (inner (ls' ! 0)) =
             fold insort (map fst kvs) (map (fld key (heap s)) (inner (ls ! 0)))"
  using assms
proof (induction kvs arbitrary: s ls)
  case Nil
  then show ?case by auto
next
  case (Cons kv kvs)
  obtain k v where kv: "kv = (k, v)" by (cases kv)
  obtain s1 ls1 where i: "insert_sl s k v = Some (Inr (True, s1))" "inserted s ls k v s1 ls1"
    "SkipListLayers s1 \<le> cap (SkipListSize s1)"
    using insert_total [OF Cons.prems, of k v] by blast
  have w1: "wf s1 ls1" by (rule inserted_wf [OF i(2)])
  obtain s' ls' where r: "run (Some (Inr s1)) (map (\<lambda>(k, v). Insert k v) kvs) = Some (Inr s')"
    "wf s' ls'" "SkipListLayers s' \<le> cap (SkipListSize s')"
    "SkipListSize s' = SkipListSize s1 + length kvs"
    "map (fld key (heap s')) (inner (ls' ! 0)) =
       fold insort (map fst kvs) (map (fld key (heap s1)) (inner (ls1 ! 0)))"
    using Cons.IH [OF w1 i(3)] by blast
  have "run (Some (Inr s)) (map (\<lambda>(k, v). Insert k v) (kv # kvs)) = Some (Inr s')"
    using run_Insert [OF i(1)] r(1) kv by simp
  moreover have "SkipListSize s' = SkipListSize s + length (kv # kvs)"
    using r(4) inserted_size [OF i(2)] by simp
  moreover have "map (fld key (heap s')) (inner (ls' ! 0)) =
             fold insort (map fst (kv # kvs)) (map (fld key (heap s)) (inner (ls ! 0)))"
    using r(5) inserted_keys [OF Cons.prems(1) i(2)] kv by simp
  ultimately show ?case using r(2,3) by blast
qed

lemma fold_insort_props:
  fixes ys :: "('a::linorder) list"
  shows "set (fold insort xs ys) = set xs \<union> set ys"
    and "sorted ys \<Longrightarrow> sorted (fold insort xs ys)"
    and "distinct xs \<Longrightarrow> distinct ys \<Longrightarrow> set xs \<inter> set ys = {} \<Longrightarrow> distinct (fold insort xs ys)"
proof (induction xs arbitrary: ys)
  case Nil
  { case 1 show ?case by simp }
  { case 2 then show ?case by simp }
  { case 3 then show ?case by simp }
next
  case (Cons x xs)
  { case 1 show ?case using Cons.IH(1) [of "insort x ys"] by (simp add: set_insort_key) }
  { case 2 then show ?case using Cons.IH(2) [of "insort x ys"] by (simp add: sorted_insort) }
  { case 3 then show ?case
      using Cons.IH(3) [of "insort x ys"] by (simp add: distinct_insort set_insort_key) }
qed

lemma run_from_construct:
  "\<exists>s' ls'. run (Some construct) (map (\<lambda>(k, v). Insert k v) kvs) = Some (Inr s') \<and>
           wf s' ls' \<and> SkipListLayers s' \<le> cap (SkipListSize s') \<and>
           SkipListSize s' = length kvs \<and>
           map (fld key (heap s')) (inner (ls' ! 0)) = fold insort (map fst kvs) []"
proof -
  obtain s0 :: "'a SkipList" where s0: "construct = Inr s0" "wf s0 [[0, 1], [2, 3]]"
    "SkipListSize s0 = 0" "SkipListLayers s0 = 2"
    using construct_wf by blast
  have c: "SkipListLayers s0 \<le> cap (SkipListSize s0)" using s0(3,4) by (simp add: cap_def)
  show ?thesis
    using run_inserts [OF s0(2) c, of kvs] s0(1,3) by (simp add: inner_def)
qed

text \<open>
  At the key type \<^verbatim>\<open>unsigned int\<close> the key 0 of the sentinels is the least key, and the
  \<^verbatim>\<open>return false\<close> of \<^verbatim>\<open>insert\<close> is never reached. There, inserts of pairwise
  distinct keys into a fresh container all return; afterwards the size is the number of
  inserts and the key listing is strictly ascending and holds exactly the inserted keys.
\<close>

lemma distinct_inserts_unsigned:
  assumes "distinct (map fst kvs)"
  shows "\<exists>s ks. run (Some construct) (map (\<lambda>(k, v). Insert k v) kvs) = Some (Inr s) \<and>
           size_sl s = length kvs \<and> allKeysInOrder s = Some (Inr ks) \<and>
           sorted_wrt (<) ks \<and> set ks = fst ` set kvs"
proof -
  obtain s' ls' where r: "run (Some construct) (map (\<lambda>(k, v). Insert k v) kvs) = Some (Inr s')"
    "wf s' ls'" "SkipListSize s' = length kvs"
    "map (fld key (heap s')) (inner (ls' ! 0)) = fold insort (map fst kvs) []"
    using run_from_construct [of kvs] by blast
  let ?ks = "fold insort (map fst kvs) []"
  have "allKeysInOrder s' = Some (Inr ?ks)"
    using allKeysInOrder_wf [OF r(2)] r(4) wf_hd [OF r(2)] by simp
  moreover have "sorted ?ks"
    by (rule fold_insort_props(2)) simp
  moreover have "distinct ?ks"
    by (rule fold_insort_props(3)) (simp_all add: assms)
  moreover have "set ?ks = fst ` set kvs"
    by (simp add: fold_insort_props(1))
  ultimately show ?thesis
    using r(1,3) by (auto simp: size_sl_def strict_sorted_iff)
qed

section \<open>Well-formedness during an erasure\<close>

lemma wfeI:
  assumes "length ls = SkipListLayers s" "2 \<le> length ls"
    "\<And>i. i < length ls \<Longrightarrow> layer_ok (heap s) (ls ! i)"
    "\<And>i a. i < length ls \<Longrightarrow> a \<in> set (ls ! i) \<Longrightarrow> a < fresh s"
    "\<And>i j. i < j \<Longrightarrow> j < length ls \<Longrightarrow> set (ls ! i) \<inter> set (ls ! j) = {}"
    "\<And>i. Suc i < length ls \<Longrightarrow>
       linkv (fld up (heap s)) (fld down (heap s)) (fld key (heap s)) (ls ! i) (tgt ls pend i)"
    "\<And>j x. pend = Some (j, x) \<Longrightarrow> j < length ls \<and> x \<in> set (inner (ls ! j))"
    "\<And>a. a \<in> set (ls ! (length ls - 1)) \<Longrightarrow> fld up (heap s) a = None"
    "\<And>a. a \<in> set (ls ! 0) \<Longrightarrow> fld down (heap s) a = None"
    "sorted (map (fld key (heap s)) (inner (ls ! 0)))"
    "\<And>i. i < length ls \<Longrightarrow>
       fld key (heap s) (hd (ls ! i)) = 0 \<and> fld key (heap s) (last (ls ! i)) = 0"
    "SkipListSize s + 2 = length (ls ! 0) + d"
    "s_front s = Some (hd (ls ! 0))" "s_back s = Some (last (ls ! 0))"
    "topFront s = Some (hd (ls ! (length ls - 1)))"
    "topBack s = Some (last (ls ! (length ls - 1)))"
  shows "wfe s ls pend d"
proof -
  have ne: "ls \<noteq> []" using assms(2) by auto
  have h: "hd ls = ls ! 0" using ne by (simp add: hd_conv_nth)
  have l: "last ls = ls ! (length ls - 1)" using ne by (simp add: last_conv_nth)
  have lay: "\<forall>l\<in>set ls. layer_ok (heap s) l \<and> (\<forall>a\<in>set l. a < fresh s)"
  proof
    fix l assume "l \<in> set ls"
    then obtain i where i: "i < length ls" "ls ! i = l" by (auto simp: in_set_conv_nth)
    show "layer_ok (heap s) l \<and> (\<forall>a\<in>set l. a < fresh s)"
      using assms(3) [OF i(1)] assms(4) [OF i(1)] i(2) by auto
  qed
  show ?thesis
    unfolding wfe_def h l link_def
  proof (intro conjI)
    show "length ls = SkipListLayers s" by (rule assms(1))
    show "2 \<le> length ls" by (rule assms(2))
    show "\<forall>l\<in>set ls. layer_ok (heap s) l \<and> (\<forall>a\<in>set l. a < fresh s)" by (rule lay)
    show "\<forall>i j. i < j \<and> j < length ls \<longrightarrow> set (ls ! i) \<inter> set (ls ! j) = {}"
      using assms(5) by blast
    show "\<forall>i. Suc i < length ls \<longrightarrow>
         linkv (fld up (heap s)) (fld down (heap s)) (fld key (heap s)) (ls ! i) (tgt ls pend i)"
      using assms(6) by blast
    show "\<forall>j x. pend = Some (j, x) \<longrightarrow> j < length ls \<and> x \<in> set (inner (ls ! j))"
      using assms(7) by blast
    show "\<forall>a\<in>set (ls ! (length ls - 1)). fld up (heap s) a = None" using assms(8) by blast
    show "\<forall>a\<in>set (ls ! 0). fld down (heap s) a = None" using assms(9) by blast
    show "sorted (map (fld key (heap s)) (inner (ls ! 0)))" by (rule assms(10))
    show "\<forall>l\<in>set ls. fld key (heap s) (hd l) = 0 \<and> fld key (heap s) (last l) = 0"
    proof
      fix l assume "l \<in> set ls"
      then obtain i where i: "i < length ls" "ls ! i = l" by (auto simp: in_set_conv_nth)
      show "fld key (heap s) (hd l) = 0 \<and> fld key (heap s) (last l) = 0"
        using assms(11) [OF i(1)] i(2) by simp
    qed
    show "SkipListSize s + 2 = length (ls ! 0) + d" by (rule assms(12))
    show "s_front s = Some (hd (ls ! 0))" by (rule assms(13))
    show "s_back s = Some (last (ls ! 0))" by (rule assms(14))
    show "topFront s = Some (hd (ls ! (length ls - 1)))" by (rule assms(15))
    show "topBack s = Some (last (ls ! (length ls - 1)))" by (rule assms(16))
  qed
qed

lemma wfe_length: "wfe s ls pend d \<Longrightarrow> length ls = SkipListLayers s \<and> 2 \<le> length ls"
  by (simp add: wfe_def)

lemma wfe_ne: "wfe s ls pend d \<Longrightarrow> ls \<noteq> []"
  by (auto simp: wfe_def)

lemma wfe_hd: "wfe s ls pend d \<Longrightarrow> hd ls = ls ! 0"
  by (simp add: wfe_ne hd_conv_nth)

lemma wfe_last: "wfe s ls pend d \<Longrightarrow> last ls = ls ! (length ls - 1)"
  by (simp add: wfe_ne last_conv_nth)

lemma wfe_layer: "wfe s ls pend d \<Longrightarrow> i < length ls \<Longrightarrow> layer_ok (heap s) (ls ! i)"
  by (simp add: wfe_def)

lemma wfe_bound: "wfe s ls pend d \<Longrightarrow> i < length ls \<Longrightarrow> a \<in> set (ls ! i) \<Longrightarrow> a < fresh s"
  using nth_mem [of i ls] by (auto simp: wfe_def)

lemma wfe_disjoint:
  assumes "wfe s ls pend d" "i < length ls" "j < length ls" "i \<noteq> j"
  shows "set (ls ! i) \<inter> set (ls ! j) = {}"
proof (cases "i < j")
  case True
  then show ?thesis using assms by (simp add: wfe_def)
next
  case False
  then have "j < i" using assms(4) by simp
  then have "set (ls ! j) \<inter> set (ls ! i) = {}" using assms by (simp add: wfe_def)
  then show ?thesis by blast
qed

lemma wfe_link:
  "wfe s ls pend d \<Longrightarrow> Suc i < length ls \<Longrightarrow>
     linkv (fld up (heap s)) (fld down (heap s)) (fld key (heap s)) (ls ! i) (tgt ls pend i)"
  by (simp add: wfe_def link_def)

lemma wfe_pend: "wfe s ls (Some (j, x)) d \<Longrightarrow> j < length ls \<and> x \<in> set (inner (ls ! j))"
  by (simp add: wfe_def)

lemma wfe_top: "wfe s ls pend d \<Longrightarrow> a \<in> set (ls ! (length ls - 1)) \<Longrightarrow> fld up (heap s) a = None"
  by (frule wfe_last) (simp add: wfe_def)

lemma wfe_base: "wfe s ls pend d \<Longrightarrow> a \<in> set (ls ! 0) \<Longrightarrow> fld down (heap s) a = None"
  by (frule wfe_hd) (simp add: wfe_def)

lemma wfe_sorted: "wfe s ls pend d \<Longrightarrow> sorted (map (fld key (heap s)) (inner (ls ! 0)))"
  by (frule wfe_hd) (simp add: wfe_def)

lemma wfe_key0:
  "wfe s ls pend d \<Longrightarrow> i < length ls \<Longrightarrow>
     fld key (heap s) (hd (ls ! i)) = 0 \<and> fld key (heap s) (last (ls ! i)) = 0"
  using nth_mem [of i ls] by (auto simp: wfe_def)

lemma wfe_size: "wfe s ls pend d \<Longrightarrow> SkipListSize s + 2 = length (ls ! 0) + d"
  by (frule wfe_hd) (simp add: wfe_def)

lemma wfe_ptrs:
  "wfe s ls pend d \<Longrightarrow> s_front s = Some (hd (ls ! 0)) \<and> s_back s = Some (last (ls ! 0)) \<and>
     topFront s = Some (hd (ls ! (length ls - 1))) \<and>
     topBack s = Some (last (ls ! (length ls - 1)))"
  by (frule wfe_hd, frule wfe_last) (simp add: wfe_def)

lemma wf_wfe: "wf s ls \<longleftrightarrow> wfe s ls None 0"
  by (simp add: wf_def wfe_def tgt_def)

lemma wfe_start:
  assumes "wf s ls" "x \<in> set (inner (ls ! 0))"
  shows "wfe s ls (Some (0, x)) 0"
proof -
  have "0 < length ls" using wf_length [OF assms(1)] by simp
  then show ?thesis using assms by (simp add: wf_def wfe_def tgt_def)
qed

lemma wfe_finish:
  assumes "wfe s ls None (Suc 0)"
  shows "wf (s\<lparr>SkipListSize := SkipListSize s - 1\<rparr>) ls \<and> 0 < SkipListSize s"
proof -
  have z: "0 < length ls" using wfe_length [OF assms] by simp
  have "2 \<le> length (ls ! 0)" using wfe_layer [OF assms z] by (simp add: layer_ok_def)
  then have sz: "0 < SkipListSize s" "SkipListSize s - 1 + 2 = length (hd ls)"
    using wfe_size [OF assms] wfe_hd [OF assms] by simp_all
  have "wf (s\<lparr>SkipListSize := SkipListSize s - 1\<rparr>) ls"
    using assms sz(2) by (simp add: wf_def wfe_def tgt_def)
  then show ?thesis using sz(1) by simp
qed

section \<open>Taking a node out of a chain\<close>

lemma inner_split:
  assumes "x \<in> set (inner l)"
  shows "\<exists>A a b B. l = A @ a # x # b # B"
proof -
  obtain c t where l: "l = c # t" using assms by (cases l) (auto simp: inner_def)
  have "x \<in> set (butlast t)" using assms l by (simp add: inner_def)
  then obtain A0 B0 where t: "t = A0 @ x # B0" "B0 \<noteq> []"
    using in_butlast_split [of x t] by blast
  obtain b B where b: "B0 = b # B" using t(2) by (cases B0) auto
  obtain A a where a: "c # A0 = A @ [a]" by (cases "c # A0" rule: rev_cases) auto
  have "l = (c # A0) @ x # b # B" using l t(1) b by simp
  then have "l = A @ a # x # b # B" unfolding a by simp
  then show ?thesis by blast
qed

lemma dl_remove:
  assumes "dl N P p (A @ a # x # b # B) q" "distinct (A @ a # x # b # B)"
  shows "dl (N(a := Some b)) (P(b := Some a)) p (A @ a # b # B) q"
proof -
  have f1: "dl N P p A (Some a)" and f2: "P a = (if A = [] then p else Some (last A))"
    and f3: "N b = (case B of [] \<Rightarrow> q | c # _ \<Rightarrow> Some c)" and f4: "dl N P (Some b) B q"
    using assms(1) by (simp_all add: dl_append)
  have a': "dl (N(a := Some b)) (P(b := Some a)) p A (Some a)"
    using f1 assms(2) by (simp add: dl_upd_N dl_upd_P)
  have b': "dl (N(a := Some b)) (P(b := Some a)) (Some b) B q"
    using f4 assms(2) by (simp add: dl_upd_N dl_upd_P)
  have g: "dl (N(a := Some b)) (P(b := Some a))
             (if A = [] then p else Some (last A)) (a # b # B) q"
    using b' f2 f3 assms(2) by (simp split: list.splits)
  show ?thesis using a' g by (simp add: dl_append)
qed

lemma linkv_remove_noup:
  assumes "linkv U D K (A @ x # B) l'" "A \<noteq> []" "B \<noteq> []" "U x = None"
  shows "linkv U D K (A @ B) l'"
  using assms by (simp add: linkv_def)

lemma linkv_remove_up:
  assumes "linkv U D K (A @ x # B) l'" "A \<noteq> []" "B \<noteq> []" "U x = Some u"
  shows "\<exists>A' B'. l' = A' @ u # B' \<and> A' \<noteq> [] \<and> B' \<noteq> [] \<and> linkv U D K (A @ B) (A' @ B')"
proof -
  let ?f = "\<lambda>l. map (\<lambda>a. the (U a)) (filter (\<lambda>a. U a \<noteq> None) l)"
  have l': "l' = ?f A @ u # ?f B" using assms(1,4) by (simp add: linkv_def)
  have "U (hd A) \<noteq> None" using assms(1,2) by (simp add: linkv_def)
  then have "\<exists>a\<in>set A. U a \<noteq> None" using assms(2) by (intro bexI [of _ "hd A"]) simp_all
  then have a: "?f A \<noteq> []" by (simp add: filter_empty_conv)
  have "U (last B) \<noteq> None" using assms(1,3) by (simp add: linkv_def)
  then have "\<exists>a\<in>set B. U a \<noteq> None" using assms(3) by (intro bexI [of _ "last B"]) simp_all
  then have b: "?f B \<noteq> []" by (simp add: filter_empty_conv)
  have "linkv U D K (A @ B) (?f A @ ?f B)" using assms by (simp add: linkv_def)
  then show ?thesis using l' a b by blast
qed

section \<open>One turn of the loop of erase\<close>

lemma fld_unlink:
  assumes "c \<noteq> x"
  shows "fld nxt (unlink h a x b) c = ((fld nxt h)(a := Some b)) c"
    "fld previous (unlink h a x b) c = ((fld previous h)(b := Some a)) c"
    "fld up (unlink h a x b) c = fld up h c"
    "fld down (unlink h a x b) c = fld down h c"
    "fld key (unlink h a x b) c = fld key h c"
    "fld val (unlink h a x b) c = fld val h c"
  using assms by (simp_all add: unlink_def fld_delete)

lemma dom_unlink: "a \<in> dom h \<Longrightarrow> b \<in> dom h \<Longrightarrow> dom (unlink h a x b) = dom h - {x}"
  by (auto simp: unlink_def)

lemma erase_step_run:
  assumes "x \<in> dom (heap s)" "a \<in> dom (heap s)" "b \<in> dom (heap s)"
    "fld previous (heap s) x = Some a" "fld nxt (heap s) x = Some b" "a \<noteq> x" "b \<noteq> x"
  shows "erase_loop s (Some x) =
           erase_loop (s\<lparr>heap := unlink (heap s) a x b\<rparr>) (fld up (heap s) x)"
  using assms
  by (subst erase_loop.simps)
     (simp add: deref_live assign_simps bind_simps Let_def unlink_def delete_def)

section \<open>The invariant of the loop of erase\<close>

lemma sorted_remove_mid:
  fixes X :: "('a::linorder) list"
  shows "sorted (X @ x # Y) \<Longrightarrow> sorted (X @ Y)"
  by (auto simp: sorted_append)

lemma erase_step_wfe:
  assumes w: "wfe s ls (Some (j, x)) d"
  shows "\<exists>a b A B. ls ! j = A @ a # x # b # B \<and>
           erase_loop s (Some x) =
             erase_loop (s\<lparr>heap := unlink (heap s) a x b\<rparr>) (fld up (heap s) x) \<and>
           wfe (s\<lparr>heap := unlink (heap s) a x b\<rparr>) (ls[j := A @ a # b # B])
               (case fld up (heap s) x of None \<Rightarrow> None | Some u \<Rightarrow> Some (Suc j, u))
               (if j = 0 then Suc d else d) \<and>
           (fld up (heap s) x \<noteq> None \<longrightarrow> Suc j < length ls)"
proof -
  let ?h = "heap s"
  let ?N = "fld nxt ?h" and ?P = "fld previous ?h" and ?U = "fld up ?h"
  let ?D = "fld down ?h" and ?K = "fld key ?h"
  have len: "length ls = SkipListLayers s" "2 \<le> length ls" using wfe_length [OF w] by simp_all
  have zero: "0 < length ls" using len by simp
  have j: "j < length ls" and xin: "x \<in> set (inner (ls ! j))" using wfe_pend [OF w] by simp_all
  obtain A a b B where l: "ls ! j = A @ a # x # b # B" using inner_split [OF xin] by blast
  have l2: "ls ! j = (A @ [a]) @ x # b # B" using l by simp
  have lay: "layer_ok ?h (ls ! j)" by (rule wfe_layer [OF w j])
  have dist: "distinct (A @ a # x # b # B)" using lay l by (simp add: layer_ok_def)
  have nb: "?P x = Some a" "?N x = Some b"
    using layer_next [OF lay l] layer_next [OF lay l2] by simp_all
  have live: "x \<in> dom ?h" "a \<in> dom ?h" "b \<in> dom ?h" using layer_live [OF lay] l by simp_all
  have ne: "a \<noteq> x" "b \<noteq> x" "a \<noteq> b" using dist by auto
  have xj: "x \<in> set (ls ! j)" "a \<in> set (ls ! j)" "b \<in> set (ls ! j)" using l by simp_all
  define h1 where "h1 = unlink ?h a x b"
  define s1 where "s1 = s\<lparr>heap := h1\<rparr>"
  define l1 where "l1 = A @ a # b # B"
  define ls1 where "ls1 = ls[j := l1]"
  define pend1 where "pend1 = (case ?U x of None \<Rightarrow> None | Some u \<Rightarrow> Some (Suc j, u))"
  define d1 where "d1 = (if j = 0 then Suc d else d)"
  have run: "erase_loop s (Some x) = erase_loop s1 (?U x)"
    unfolding s1_def h1_def by (rule erase_step_run [OF live nb ne(1,2)])
  have s1: "heap s1 = h1" "fresh s1 = fresh s" "SkipListSize s1 = SkipListSize s"
    "SkipListLayers s1 = SkipListLayers s" "s_front s1 = s_front s" "s_back s1 = s_back s"
    "topFront s1 = topFront s" "topBack s1 = topBack s"
    by (simp_all add: s1_def)
  have v: "fld nxt h1 c = (?N(a := Some b)) c" "fld previous h1 c = (?P(b := Some a)) c"
    "fld up h1 c = ?U c" "fld down h1 c = ?D c" "fld key h1 c = ?K c" if "c \<noteq> x" for c
    unfolding h1_def by (rule fld_unlink [OF that])+
  have dom1: "dom h1 = dom ?h - {x}" unfolding h1_def by (rule dom_unlink [OF live(2,3)])
  have len1: "length ls1 = length ls" by (simp add: ls1_def)
  have n1: "ls1 ! i = (if i = j then l1 else ls ! i)" if "i < length ls" for i
    using that by (simp add: ls1_def nth_list_update)
  have set1: "set l1 = set (ls ! j) - {x}" using dist unfolding l l1_def by auto
  have sub: "c \<in> set (ls ! i) \<and> c \<noteq> x" if "i < length ls" "c \<in> set (ls1 ! i)" for i c
  proof (cases "i = j")
    case True
    then show ?thesis using that n1 [OF that(1)] set1 by auto
  next
    case False
    have "set (ls ! i) \<inter> set (ls ! j) = {}" by (rule wfe_disjoint [OF w that(1) j False])
    then show ?thesis using that n1 [OF that(1)] False xj(1) by auto
  qed
  have other: "c \<noteq> a \<and> c \<noteq> b \<and> c \<noteq> x" if "i < length ls" "i \<noteq> j" "c \<in> set (ls ! i)" for i c
  proof -
    have "set (ls ! i) \<inter> set (ls ! j) = {}" by (rule wfe_disjoint [OF w that(1) j that(2)])
    then show ?thesis using that(3) xj by auto
  qed
  have hl1: "hd l1 = hd (ls ! j)" "last l1 = last (ls ! j)"
    unfolding l l1_def by (cases A; simp)+
  have hl: "hd (ls1 ! i) = hd (ls ! i) \<and> last (ls1 ! i) = last (ls ! i)" if "i < length ls" for i
    using n1 [OF that] hl1 by simp
  have hlin: "hd (ls ! i) \<in> set (ls1 ! i) \<and> last (ls ! i) \<in> set (ls1 ! i)" if "i < length ls" for i
  proof -
    have "ls1 ! i \<noteq> []" using n1 [OF that] layer_ne [OF wfe_layer [OF w that]] by (simp add: l1_def)
    then have "hd (ls1 ! i) \<in> set (ls1 ! i)" "last (ls1 ! i) \<in> set (ls1 ! i)" by simp_all
    then show ?thesis using hl [OF that] by simp
  qed
  have top_up: "?U x \<noteq> None \<longrightarrow> Suc j < length ls"
  proof
    assume u: "?U x \<noteq> None"
    show "Suc j < length ls"
    proof (rule ccontr)
      assume "\<not> Suc j < length ls"
      then have "j = length ls - 1" using j by simp
      then have "?U x = None" using wfe_top [OF w] xj(1) by simp
      then show False using u by simp
    qed
  qed
  have W: "wfe s1 ls1 pend1 d1"
  proof (rule wfeI)
    show "length ls1 = SkipListLayers s1" using len s1 len1 by simp
    show "2 \<le> length ls1" using len len1 by simp
  next
    fix i assume "i < length ls1"
    then have i: "i < length ls" using len1 by simp
    show "layer_ok (heap s1) (ls1 ! i)"
    proof (cases "i = j")
      case True
      have c: "dl ?N ?P None (A @ a # x # b # B) None" using lay l by (simp add: layer_ok_def)
      have "dl (?N(a := Some b)) (?P(b := Some a)) None l1 None"
        unfolding l1_def by (rule dl_remove [OF c dist])
      moreover have "dl (fld nxt h1) (fld previous h1) None l1 None =
                     dl (?N(a := Some b)) (?P(b := Some a)) None l1 None"
      proof (rule dl_cong)
        fix c assume "c \<in> set l1"
        then have "c \<noteq> x" using set1 by simp
        then show "fld nxt h1 c = (?N(a := Some b)) c \<and> fld previous h1 c = (?P(b := Some a)) c"
          using v(1,2) by blast
      qed
      moreover have "distinct l1" using dist unfolding l1_def by simp
      moreover have "set l1 \<subseteq> dom h1"
      proof
        fix c assume "c \<in> set l1"
        then have "c \<in> set (ls ! j)" "c \<noteq> x" using set1 by simp_all
        then show "c \<in> dom h1" using layer_live [OF lay, of c] dom1 by simp
      qed
      moreover have "2 \<le> length l1" by (simp add: l1_def)
      ultimately show ?thesis using True n1 [OF i] s1(1) by (simp add: layer_ok_def)
    next
      case False
      have "layer_ok h1 (ls ! i)"
      proof (rule layer_ok_frame [OF wfe_layer [OF w i]])
        show "set (ls ! i) \<subseteq> dom h1"
        proof
          fix c assume c: "c \<in> set (ls ! i)"
          then have "c \<noteq> x" using other [OF i False] by simp
          then show "c \<in> dom h1" using layer_live [OF wfe_layer [OF w i] c] dom1 by simp
        qed
        show "fld nxt h1 c = ?N c \<and> fld previous h1 c = ?P c" if "c \<in> set (ls ! i)" for c
          using other [OF i False that] v(1,2) [of c] by simp
      qed
      then show ?thesis using False n1 [OF i] s1(1) by simp
    qed
  next
    fix i c assume "i < length ls1" and c: "c \<in> set (ls1 ! i)"
    then have i: "i < length ls" using len1 by simp
    show "c < fresh s1" using wfe_bound [OF w i] sub [OF i c] s1(2) by simp
  next
    fix i i' assume ij: "i < i'" "i' < length ls1"
    then have i: "i < length ls" "i' < length ls" "i \<noteq> i'" using len1 by simp_all
    have "set (ls ! i) \<inter> set (ls ! i') = {}" by (rule wfe_disjoint [OF w i])
    then show "set (ls1 ! i) \<inter> set (ls1 ! i') = {}"
      using sub [OF i(1)] sub [OF i(2)] by blast
  next
    fix i assume "Suc i < length ls1"
    then have i: "Suc i < length ls" "i < length ls" using len1 by simp_all
    have old: "linkv ?U ?D ?K (ls ! i) (tgt ls (Some (j, x)) i)" by (rule wfe_link [OF w i(1)])
    have nel: "ls1 ! i \<noteq> []" using hlin [OF i(2)] by auto
    have fr: "linkv (fld up h1) (fld down h1) (fld key h1) (ls1 ! i) T"
      if "linkv ?U ?D ?K (ls1 ! i) T" "set T \<subseteq> set (ls1 ! Suc i)" for T
    proof (rule linkv_frame [OF that(1) nel])
      show "fld up h1 c = ?U c \<and> fld key h1 c = ?K c" if "c \<in> set (ls1 ! i)" for c
        using sub [OF i(2) that] v(3,5) by blast
      show "fld down h1 u = ?D u \<and> fld key h1 u = ?K u" if "u \<in> set T" for u
      proof -
        have "u \<in> set (ls1 ! Suc i)" using that \<open>set T \<subseteq> set (ls1 ! Suc i)\<close> by blast
        then show ?thesis using sub [OF i(1)] v(4,5) by blast
      qed
    qed
    have "linkv ?U ?D ?K (ls1 ! i) (tgt ls1 pend1 i) \<and> set (tgt ls1 pend1 i) \<subseteq> set (ls1 ! Suc i)"
    proof (cases "i = j")
      case True
      have o: "linkv ?U ?D ?K ((A @ [a]) @ x # b # B) (ls ! Suc j)"
        using old True l by (simp add: tgt_def)
      have li: "ls1 ! i = (A @ [a]) @ b # B" using n1 [OF i(2)] True by (simp add: l1_def)
      have lsi: "ls1 ! Suc i = ls ! Suc j" using n1 [OF i(1)] True by simp
      show ?thesis
      proof (cases "?U x")
        case None
        have "linkv ?U ?D ?K ((A @ [a]) @ b # B) (ls ! Suc j)"
          by (rule linkv_remove_noup [OF o _ _ None]) simp_all
        moreover have "tgt ls1 pend1 i = ls ! Suc j"
          using None lsi by (simp add: tgt_def pend1_def)
        ultimately show ?thesis using li lsi by simp
      next
        case (Some u)
        obtain A' B' where ab: "ls ! Suc j = A' @ u # B'" "A' \<noteq> []" "B' \<noteq> []"
          "linkv ?U ?D ?K ((A @ [a]) @ b # B) (A' @ B')"
          using linkv_remove_up [OF o _ _ Some] by auto
        have "distinct (ls ! Suc j)" using wfe_layer [OF w i(1)] True by (simp add: layer_ok_def)
        then have "remove1 u (ls ! Suc j) = A' @ B'" unfolding ab(1) by (simp add: remove1_append)
        then have "tgt ls1 pend1 i = A' @ B'"
          using Some lsi True by (simp add: tgt_def pend1_def)
        moreover have "set (A' @ B') \<subseteq> set (ls ! Suc j)" unfolding ab(1) by auto
        ultimately show ?thesis using ab(4) li lsi by simp
      qed
    next
      case False
      have li: "ls1 ! i = ls ! i" using n1 [OF i(2)] False by simp
      show ?thesis
      proof (cases "Suc i = j")
        case True
        have "tgt ls (Some (j, x)) i = l1"
          using True dist l by (simp add: tgt_def l1_def remove1_append)
        moreover have "tgt ls1 pend1 i = l1"
          using True n1 [OF i(1)] by (simp add: tgt_def pend1_def split: option.splits)
        moreover have "ls1 ! Suc i = l1" using True n1 [OF i(1)] by simp
        ultimately show ?thesis using old li by simp
      next
        case F: False
        have "tgt ls (Some (j, x)) i = ls ! Suc i" using F by (simp add: tgt_def)
        moreover have "tgt ls1 pend1 i = ls ! Suc i"
          using F False n1 [OF i(1)] by (simp add: tgt_def pend1_def split: option.splits)
        moreover have "ls1 ! Suc i = ls ! Suc i" using F n1 [OF i(1)] by simp
        ultimately show ?thesis using old li by simp
      qed
    qed
    then show "linkv (fld up (heap s1)) (fld down (heap s1)) (fld key (heap s1))
             (ls1 ! i) (tgt ls1 pend1 i)"
      using fr s1(1) by simp
  next
    fix j' x' assume p: "pend1 = Some (j', x')"
    then have u: "?U x = Some x'" "j' = Suc j" by (auto simp: pend1_def split: option.splits)
    have sj: "Suc j < length ls" using top_up u(1) by simp
    have o: "linkv ?U ?D ?K ((A @ [a]) @ x # b # B) (ls ! Suc j)"
      using wfe_link [OF w sj] l by (simp add: tgt_def)
    obtain A' B' where ab: "ls ! Suc j = A' @ x' # B'" "A' \<noteq> []" "B' \<noteq> []"
      using linkv_remove_up [OF o _ _ u(1)] by auto
    have "x' \<in> set (inner (ls ! Suc j))"
      unfolding ab(1) inner_append(2) [OF ab(2,3)] by simp
    then show "j' < length ls1 \<and> x' \<in> set (inner (ls1 ! j'))"
      using sj u(2) len1 n1 [OF sj] by simp
  next
    fix c assume "c \<in> set (ls1 ! (length ls1 - 1))"
    then have "c \<in> set (ls ! (length ls - 1)) \<and> c \<noteq> x"
      using sub [of "length ls - 1" c] zero len1 by simp
    then show "fld up (heap s1) c = None" using wfe_top [OF w] v(3) s1(1) by simp
  next
    fix c assume "c \<in> set (ls1 ! 0)"
    then have "c \<in> set (ls ! 0) \<and> c \<noteq> x" using sub [OF zero] by simp
    then show "fld down (heap s1) c = None" using wfe_base [OF w] v(4) s1(1) by simp
  next
    have so: "sorted (map ?K (inner (ls ! 0)))" by (rule wfe_sorted [OF w])
    have so1: "sorted (map ?K (inner (ls1 ! 0)))"
    proof (cases "j = 0")
      case True
      have "inner (ls ! 0) = tl (A @ [a]) @ x # butlast (b # B)"
        using l2 True inner_append(2) [of "A @ [a]" "b # B" x] by simp
      moreover have "inner (ls1 ! 0) = tl (A @ [a]) @ butlast (b # B)"
        using n1 [OF zero] True inner_append(1) [of "A @ [a]" "b # B"] by (simp add: l1_def)
      ultimately show ?thesis using so sorted_remove_mid [of "map ?K (tl (A @ [a]))"] by simp
    next
      case False
      then show ?thesis using so n1 [OF zero] by simp
    qed
    have me: "map (fld key h1) (inner (ls1 ! 0)) = map ?K (inner (ls1 ! 0))"
    proof (rule map_cong [OF refl])
      fix c assume "c \<in> set (inner (ls1 ! 0))"
      then have "c \<in> set (ls1 ! 0)" using inner_subset by blast
      then have "c \<noteq> x" using sub [OF zero] by simp
      then show "fld key h1 c = ?K c" by (rule v(5))
    qed
    show "sorted (map (fld key (heap s1)) (inner (ls1 ! 0)))"
      unfolding s1(1) me by (rule so1)
  next
    fix i assume "i < length ls1"
    then have i: "i < length ls" using len1 by simp
    have "hd (ls ! i) \<noteq> x" "last (ls ! i) \<noteq> x" using hlin [OF i] sub [OF i] by blast+
    then show "fld key (heap s1) (hd (ls1 ! i)) = 0 \<and> fld key (heap s1) (last (ls1 ! i)) = 0"
      using wfe_key0 [OF w i] hl [OF i] v(5) s1(1) by simp
  next
    have "length (ls ! 0) = (if j = 0 then Suc (length (ls1 ! 0)) else length (ls1 ! 0))"
      using n1 [OF zero] l by (cases "j = 0") (simp_all add: l1_def)
    then show "SkipListSize s1 + 2 = length (ls1 ! 0) + d1"
      using wfe_size [OF w] s1(3) by (simp add: d1_def split: if_splits)
    show "s_front s1 = Some (hd (ls1 ! 0))" using wfe_ptrs [OF w] hl [OF zero] s1 by simp
    show "s_back s1 = Some (last (ls1 ! 0))" using wfe_ptrs [OF w] hl [OF zero] s1 by simp
    have t: "length ls - 1 < length ls" using zero by simp
    show "topFront s1 = Some (hd (ls1 ! (length ls1 - 1)))"
      using wfe_ptrs [OF w] hl [OF t] s1 len1 by simp
    show "topBack s1 = Some (last (ls1 ! (length ls1 - 1)))"
      using wfe_ptrs [OF w] hl [OF t] s1 len1 by simp
  qed
  show ?thesis
    using l run W top_up unfolding s1_def h1_def ls1_def l1_def pend1_def d1_def by blast
qed

section \<open>Erasure keeps the container well-formed\<close>

lemma erase_loop_None: "erase_loop s None = Some (Inr s)"
  by (subst erase_loop.simps) simp

lemma erase_loop_wfe:
  assumes "wfe s ls (Some (j, x)) d"
  shows "\<exists>s' ls'. erase_loop s (Some x) = Some (Inr s') \<and>
           wfe s' ls' None (if j = 0 then Suc d else d) \<and>
           SkipListSize s' = SkipListSize s \<and> SkipListLayers s' = SkipListLayers s \<and>
           ls' ! 0 = (if j = 0 then remove1 x (ls ! 0) else ls ! 0) \<and>
           (\<forall>c\<in>set (ls' ! 0). fld key (heap s') c = fld key (heap s) c \<and>
                                fld val (heap s') c = fld val (heap s) c)"
  using assms
proof (induction "length ls - j" arbitrary: s ls j x d rule: less_induct)
  case less
  obtain a b A B where st: "ls ! j = A @ a # x # b # B"
     "erase_loop s (Some x) =
        erase_loop (s\<lparr>heap := unlink (heap s) a x b\<rparr>) (fld up (heap s) x)"
     "wfe (s\<lparr>heap := unlink (heap s) a x b\<rparr>) (ls[j := A @ a # b # B])
        (case fld up (heap s) x of None \<Rightarrow> None | Some u \<Rightarrow> Some (Suc j, u))
        (if j = 0 then Suc d else d)"
     "fld up (heap s) x \<noteq> None \<longrightarrow> Suc j < length ls"
    using erase_step_wfe [OF less.prems] by blast
  let ?s1 = "s\<lparr>heap := unlink (heap s) a x b\<rparr>"
  let ?ls1 = "ls[j := A @ a # b # B]"
  let ?d1 = "if j = 0 then Suc d else d"
  have zero: "0 < length ls" using wfe_length [OF less.prems] by simp
  have jl: "j < length ls" using wfe_pend [OF less.prems] by simp
  have "distinct (ls ! j)" using wfe_layer [OF less.prems jl] by (simp add: layer_ok_def)
  then have rm: "remove1 x (ls ! j) = A @ a # b # B" unfolding st(1) by (simp add: remove1_append)
  have b0: "?ls1 ! 0 = (if j = 0 then remove1 x (ls ! 0) else ls ! 0)"
    using zero rm by (cases "j = 0") simp_all
  have keep: "fld key (heap ?s1) c = fld key (heap s) c \<and> fld val (heap ?s1) c = fld val (heap s) c"
    if c: "c \<in> set (?ls1 ! 0)" for c
  proof -
    have z1: "0 < length ?ls1" using zero by simp
    have "c \<in> dom (heap ?s1)" by (rule layer_live [OF wfe_layer [OF st(3) z1] c])
    then have "c \<noteq> x" by (auto simp: unlink_def)
    then show ?thesis using fld_unlink(5,6) [of c x "heap s" a b] by simp
  qed
  show ?case
  proof (cases "fld up (heap s) x")
    case None
    have "erase_loop s (Some x) = Some (Inr ?s1)" using st(2) None by (simp add: erase_loop_None)
    moreover have "wfe ?s1 ?ls1 None ?d1" using st(3) None by simp
    ultimately show ?thesis
      using b0 keep by (intro exI [of _ ?s1] exI [of _ ?ls1]) simp
  next
    case (Some u)
    have w1: "wfe ?s1 ?ls1 (Some (Suc j, u)) ?d1" using st(3) Some by simp
    have m: "length ?ls1 - Suc j < length ls - j" using st(4) Some by simp
    obtain s' ls' where r: "erase_loop ?s1 (Some u) = Some (Inr s')"
      "wfe s' ls' None (if Suc j = 0 then Suc ?d1 else ?d1)"
      "SkipListSize s' = SkipListSize ?s1" "SkipListLayers s' = SkipListLayers ?s1"
      "ls' ! 0 = (if Suc j = 0 then remove1 u (?ls1 ! 0) else ?ls1 ! 0)"
      "\<forall>c\<in>set (ls' ! 0). fld key (heap s') c = fld key (heap ?s1) c \<and>
                           fld val (heap s') c = fld val (heap ?s1) c"
      using less.hyps [OF m w1] by blast
    have w': "wfe s' ls' None ?d1" using r(2) by simp
    have l0: "ls' ! 0 = ?ls1 ! 0" using r(5) by simp
    have k': "\<forall>c\<in>set (ls' ! 0). fld key (heap s') c = fld key (heap s) c \<and>
                                fld val (heap s') c = fld val (heap s) c"
    proof
      fix c assume c: "c \<in> set (ls' ! 0)"
      then have "c \<in> set (?ls1 ! 0)" using l0 by simp
      then show "fld key (heap s') c = fld key (heap s) c \<and> fld val (heap s') c = fld val (heap s) c"
        using keep [of c] r(6) c by simp
    qed
    have e: "erase_loop s (Some x) = Some (Inr s')" using st(2) Some r(1) by simp
    have l0': "ls' ! 0 = (if j = 0 then remove1 x (ls ! 0) else ls ! 0)" using l0 b0 by simp
    show ?thesis
      using e w' r(3,4) l0' k' by (intro exI [of _ s'] exI [of _ ls']) simp
  qed
qed

lemma inner_remove1:
  assumes "x \<in> set (inner l)" "distinct l"
  shows "inner (remove1 x l) = remove1 x (inner l)"
proof -
  obtain A a b B where l: "l = A @ a # x # b # B" using inner_split [OF assms(1)] by blast
  have d: "distinct ((A @ [a]) @ x # b # B)" using assms(2) l by simp
  have r: "remove1 x l = (A @ [a]) @ (b # B)" using d unfolding l by (simp add: remove1_append)
  have i1: "inner l = tl (A @ [a]) @ x # butlast (b # B)"
    using inner_append(2) [of "A @ [a]" "b # B" x] l by simp
  have i2: "inner (remove1 x l) = tl (A @ [a]) @ butlast (b # B)"
    unfolding r by (rule inner_append(1)) simp_all
  have "x \<notin> set (tl (A @ [a]))" using d by (cases A) auto
  then show ?thesis unfolding i1 i2 by (simp add: remove1_append)
qed

lemma map_remove1_find:
  "List.find (\<lambda>y. f y = k) xs = Some x \<Longrightarrow> map f (remove1 x xs) = remove1 k (map f xs)"
proof (induction xs)
  case Nil
  then show ?case by simp
next
  case (Cons y ys)
  show ?case
  proof (cases "f y = k")
    case True
    then show ?thesis using Cons.prems by simp
  next
    case False
    then have f: "List.find (\<lambda>y. f y = k) ys = Some x" using Cons.prems by simp
    then have "f x = k" by (auto simp: find_Some_iff)
    then have "x \<noteq> y" using False by auto
    then show ?thesis using Cons.IH [OF f] False by simp
  qed
qed

text \<open>
  \<^verbatim>\<open>erase\<close> of a key of the base layer returns; it takes the first node with that key
  out of the base layer, the key count goes down by one and the layer count stays.
\<close>

lemma erase_present:
  assumes w: "wf s ls" and k: "k \<in> set (map (fld key (heap s)) (inner (ls ! 0)))"
  shows "\<exists>s' ls'. erase s k = Some (Inr s') \<and> wf s' ls' \<and>
           Suc (SkipListSize s') = SkipListSize s \<and> SkipListLayers s' = SkipListLayers s \<and>
           map (fld key (heap s')) (inner (ls' ! 0)) =
             remove1 k (map (fld key (heap s)) (inner (ls ! 0)))"
proof -
  let ?K = "fld key (heap s)"
  have zero: "0 < length ls" using wf_length [OF w] by simp
  have "List.find (\<lambda>x. ?K x = k) (inner (ls ! 0)) \<noteq> None"
    using k find_None_iff_keys [of ?K k "inner (ls ! 0)"] by simp
  then obtain x where f: "List.find (\<lambda>x. ?K x = k) (inner (ls ! 0)) = Some x" by blast
  then have xin: "x \<in> set (inner (ls ! 0))" by (auto simp: find_Some_iff)
  have fn: "findNode s k = Some (Inr (Some x))"
    using findNode_wf [OF w, of k] f wf_hd [OF w] by simp
  have "wfe s ls (Some (0, x)) 0" by (rule wfe_start [OF w xin])
  then obtain s1 ls1 where r: "erase_loop s (Some x) = Some (Inr s1)"
    "wfe s1 ls1 None (if (0::nat) = 0 then Suc 0 else 0)"
    "SkipListSize s1 = SkipListSize s" "SkipListLayers s1 = SkipListLayers s"
    "ls1 ! 0 = (if (0::nat) = 0 then remove1 x (ls ! 0) else ls ! 0)"
    "\<forall>c\<in>set (ls1 ! 0). fld key (heap s1) c = ?K c \<and> fld val (heap s1) c = fld val (heap s) c"
    using erase_loop_wfe [of s ls 0 x 0] by blast
  have "wfe s1 ls1 None (Suc 0)" using r(2) by simp
  then have fin: "wf (s1\<lparr>SkipListSize := SkipListSize s1 - 1\<rparr>) ls1" "0 < SkipListSize s1"
    using wfe_finish [of s1 ls1] by simp_all
  have e: "erase s k = Some (Inr (s1\<lparr>SkipListSize := SkipListSize s1 - 1\<rparr>))"
    using fn r(1) fin(2) by (simp add: erase_def bind_simps)
  have dist: "distinct (ls ! 0)" using wf_layer [OF w zero] by (simp add: layer_ok_def)
  have l1: "ls1 ! 0 = remove1 x (ls ! 0)" using r(5) by simp
  have "map (fld key (heap s1)) (inner (ls1 ! 0)) = map ?K (inner (ls1 ! 0))"
  proof (rule map_cong [OF refl])
    fix c assume "c \<in> set (inner (ls1 ! 0))"
    then have "c \<in> set (ls1 ! 0)" by (rule inner_subset)
    then show "fld key (heap s1) c = ?K c" using r(6) by simp
  qed
  also have "\<dots> = map ?K (remove1 x (inner (ls ! 0)))"
    unfolding l1 inner_remove1 [OF xin dist] ..
  also have "\<dots> = remove1 k (map ?K (inner (ls ! 0)))" by (rule map_remove1_find [OF f])
  finally have keys: "map (fld key (heap s1)) (inner (ls1 ! 0)) =
      remove1 k (map ?K (inner (ls ! 0)))" .
  show ?thesis
    using e fin r(3,4) keys
    by (intro exI [of _ "s1\<lparr>SkipListSize := SkipListSize s1 - 1\<rparr>"] exI [of _ ls1]) simp
qed

lemma erase_absent:
  assumes w: "wf s ls" and k: "k \<notin> set (map (fld key (heap s)) (inner (ls ! 0)))"
  shows "erase s k = Some (Inl out_of_range)"
proof -
  have "List.find (\<lambda>x. fld key (heap s) x = k) (inner (ls ! 0)) = None"
    using k find_None_iff_keys [of "fld key (heap s)" k "inner (ls ! 0)"] by simp
  then have "findNode s k = Some (Inl out_of_range)"
    using findNode_wf [OF w, of k] wf_hd [OF w] by simp
  then show ?thesis by (simp add: erase_def bind_simps)
qed

section \<open>Every state a caller can reach is well-formed\<close>

lemma apply_op_invar:
  assumes "invar s" "apply_op s x = Some (Inr s')"
  shows "invar s'"
proof -
  obtain ls where w: "wf s ls" using assms(1) by (auto simp: invar_def)
  show ?thesis
  proof (cases x)
    case (Insert k v)
    obtain y where y: "insert_sl s k v = Some y"
      using assms(2) Insert by (cases "insert_sl s k v") (simp_all add: bind_simps)
    obtain s1 ls1 where i: "y = Inr (True, s1)" "inserted s ls k v s1 ls1"
      using insert_partial [OF w y] by blast
    have "s' = s1" using assms(2) Insert y i(1) by (simp add: bind_simps)
    then show ?thesis using inserted_wf [OF i(2)] by (auto simp: invar_def)
  next
    case (Erase k)
    show ?thesis
    proof (cases "k \<in> set (map (fld key (heap s)) (inner (ls ! 0)))")
      case True
      then show ?thesis using erase_present [OF w True] assms(2) Erase by (auto simp: invar_def)
    next
      case False
      then show ?thesis using erase_absent [OF w False] assms(2) Erase by simp
    qed
  qed
qed

lemma run_invar:
  assumes "run r ops = Some (Inr s')" "\<And>s. r = Some (Inr s) \<Longrightarrow> invar s"
  shows "invar s'"
  using assms
proof (induction ops arbitrary: r)
  case Nil
  then show ?case by simp
next
  case (Cons x ops)
  have r: "run (bindR r (\<lambda>s. apply_op s x)) ops = Some (Inr s')" using Cons.prems(1) by simp
  show ?case
  proof (rule Cons.IH [OF r])
    fix s1 assume a: "bindR r (\<lambda>s. apply_op s x) = Some (Inr s1)"
    then obtain s where s: "r = Some (Inr s)" "apply_op s x = Some (Inr s1)"
      by (cases r; cases "the r") (auto simp: bind_simps)
    show "invar s1" by (rule apply_op_invar [OF Cons.prems(2) [OF s(1)] s(2)])
  qed
qed

lemma construct_wf_at:
  fixes s0 :: "('a::zero) SkipList"
  assumes c: "construct = Inr s0"
  shows "wf s0 [[0, 1], [2, 3]] \<and> SkipListSize s0 = 0 \<and> SkipListLayers s0 = 2"
proof -
  obtain s1 :: "'a SkipList" where s1: "construct = Inr s1" "wf s1 [[0, 1], [2, 3]]"
    "SkipListSize s1 = 0" "SkipListLayers s1 = 2"
    using construct_wf [where ?'v = 'a] by blast
  have "Inr s0 = (Inr s1 :: error + 'a SkipList)" using c s1(1) by (rule trans [OF sym])
  then have "s0 = s1" by simp
  then show ?thesis using s1(2,3,4) by simp
qed

lemma run_construct_invar:
  assumes "run (Some construct) ops = Some (Inr s)"
  shows "invar s"
proof (rule run_invar [OF assms])
  fix s0 :: "'a SkipList" assume "Some construct = Some (Inr s0)"
  then have c: "construct = Inr s0" by simp
  show "invar s0" using construct_wf_at [OF c] by (auto simp: invar_def)
qed

lemma run_append: "run r (xs @ ys) = run (run r xs) ys"
  by (induction xs arbitrary: r) simp_all

section \<open>A key whose coin never loses\<close>

lemma flipCoin_255: "flipCoin 255 i"
proof -
  have "i mod 8 < 8" by simp
  then consider "i mod 8 = 0" | "i mod 8 = 1" | "i mod 8 = 2" | "i mod 8 = 3"
    | "i mod 8 = 4" | "i mod 8 = 5" | "i mod 8 = 6" | "i mod 8 = 7" by linarith
  then show ?thesis
    by cases (simp_all add: flipCoin_def Let_def NUMBER_OF_BITS_IN_BYTE_def flipCoinByteSelector_def)
qed

section \<open>Properties of every reachable container\<close>

lemma afterI: "run (Some construct) ops = Some (Inr s) \<Longrightarrow> Q s \<Longrightarrow> after ops Q"
  by (simp add: after_def)

lemma afterE:
  assumes "after ops Q"
  obtains s where "run (Some construct) ops = Some (Inr s)" "Q s"
  using assms by (auto simp: after_def split: option.splits sum.splits)

lemma height_wf:
  assumes w: "wf s ls"
  shows "(k \<in> set (map (fld key (heap s)) (inner (ls ! 0))) \<longrightarrow>
            (\<exists>n. height s k = Some (Inr n) \<and> 1 \<le> n \<and> n \<le> SkipListLayers s)) \<and>
         (k \<notin> set (map (fld key (heap s)) (inner (ls ! 0))) \<longrightarrow>
            height s k = Some (Inl out_of_range))"
proof (intro conjI impI)
  let ?K = "fld key (heap s)"
  assume k: "k \<in> set (map ?K (inner (ls ! 0)))"
  have "List.find (\<lambda>x. ?K x = k) (inner (ls ! 0)) \<noteq> None"
    using k find_None_iff_keys [of ?K k "inner (ls ! 0)"] by simp
  then obtain x where f: "List.find (\<lambda>x. ?K x = k) (inner (ls ! 0)) = Some x" by blast
  then have "x \<in> set (inner (ls ! 0))" by (auto simp: find_Some_iff)
  then have xin: "x \<in> set (ls ! 0)" by (rule inner_subset)
  have fn: "findNode s k = Some (Inr (Some x))"
    using findNode_wf [OF w, of k] f wf_hd [OF w] by simp
  have zero: "0 < length ls" using wf_length [OF w] by simp
  obtain m where m: "height_loop (heap s) (Some x) 1 = Some (Inr (1 + m))" "0 + m < length ls"
    using height_loop_wf [OF w zero xin, of 1] by blast
  have "height s k = Some (Inr (1 + m))" using fn m(1) by (simp add: height_def bind_simps)
  moreover have "1 + m \<le> SkipListLayers s" using m(2) wf_length [OF w] by simp
  ultimately show "\<exists>n. height s k = Some (Inr n) \<and> 1 \<le> n \<and> n \<le> SkipListLayers s" by simp
next
  assume k: "k \<notin> set (map (fld key (heap s)) (inner (ls ! 0)))"
  have "List.find (\<lambda>x. fld key (heap s) x = k) (inner (ls ! 0)) = None"
    using k find_None_iff_keys [of "fld key (heap s)" k "inner (ls ! 0)"] by simp
  then have "findNode s k = Some (Inl out_of_range)"
    using findNode_wf [OF w, of k] wf_hd [OF w] by simp
  then show "height s k = Some (Inl out_of_range)" by (simp add: height_def bind_simps)
qed

text \<open>
  Claim C8. In every state that a sequence of inserts and erases leaves, the key listing
  returns; the height of a listed key is at least 1 and at most the layer count, and the
  height of any other key throws out_of_range.
\<close>

theorem height_between_one_and_layers:
  assumes "run (Some construct) ops = Some (Inr s)"
  shows "\<exists>ks. allKeysInOrder s = Some (Inr ks) \<and>
           (k \<in> set ks \<longrightarrow> (\<exists>n. height s k = Some (Inr n) \<and> 1 \<le> n \<and> n \<le> layers s)) \<and>
           (k \<notin> set ks \<longrightarrow> height s k = Some (Inl out_of_range))"
proof -
  obtain ls where w: "wf s ls" using run_construct_invar [OF assms] by (auto simp: invar_def)
  have "allKeysInOrder s = Some (Inr (map (fld key (heap s)) (inner (ls ! 0))))"
    using allKeysInOrder_wf [OF w] wf_hd [OF w] by simp
  then show ?thesis using height_wf [OF w, of k] by (simp add: layers_def)
qed

theorem height_between_one_and_layers_witness:
  "after [Insert 5 (105::int), Insert 3 103, Insert 7 107, Erase 5]
     (\<lambda>s. allKeysInOrder s = Some (Inr [3, 7]) \<and>
          height s 3 = Some (Inr 3) \<and> height s 7 = Some (Inr 4) \<and> layers s = 5 \<and>
          (\<exists>n. height s 3 = Some (Inr n) \<and> 1 \<le> n \<and> n \<le> layers s) \<and>
          height s 5 = Some (Inl out_of_range))"
proof -
  have "after [Insert 5 (105::int), Insert 3 103, Insert 7 107, Erase 5]
          (\<lambda>s. allKeysInOrder s = Some (Inr [3, 7]) \<and>
               height s 3 = Some (Inr 3) \<and> height s 7 = Some (Inr 4) \<and> layers s = 5)"
    by code_simp
  then obtain s where s: "run (Some construct) [Insert 5 (105::int), Insert 3 103, Insert 7 107, Erase 5]
      = Some (Inr s)"
    "allKeysInOrder s = Some (Inr [3, 7]) \<and>
       height s 3 = Some (Inr 3) \<and> height s 7 = Some (Inr 4) \<and> layers s = 5"
    by (rule afterE)
  have "(\<exists>n. height s 3 = Some (Inr n) \<and> 1 \<le> n \<and> n \<le> layers s)"
    using height_between_one_and_layers [OF s(1), of 3] s(2) by simp
  moreover have "height s 5 = Some (Inl out_of_range)"
    using height_between_one_and_layers [OF s(1), of 5] s(2) by simp
  ultimately show ?thesis using s(2) by (intro afterI [OF s(1)]) simp
qed

text \<open>
  Claim C10. In a state that a sequence of inserts and erases leaves and whose key listing
  does not hold \<open>k\<close>, an insert of \<open>k\<close> with \<open>v\<close> that returns true leaves a state
  in which the lookup of \<open>k\<close> returns \<open>v\<close>.
\<close>

theorem insert_then_find:
  assumes "run (Some construct) ops = Some (Inr s)"
    and "allKeysInOrder s = Some (Inr ks)" and "k \<notin> set ks"
    and "insert_sl s k v = Some (Inr (True, s'))"
  shows "find_sl s' k = Some (Inr v)"
proof -
  obtain ls where w: "wf s ls" using run_construct_invar [OF assms(1)] by (auto simp: invar_def)
  obtain s1 ls1 where i: "Inr (True, s') = Inr (True, s1)" "inserted s ls k v s1 ls1"
    using insert_partial [OF w assms(4)] by blast
  have "s1 = s'" using i(1) by simp
  then show ?thesis using inserted_find [OF w i(2)] by simp
qed

theorem insert_then_find_witness:
  "\<exists>s s'. run (Some construct) [Insert 5 (105::int), Insert 9 109, Erase 9] = Some (Inr s) \<and>
          allKeysInOrder s = Some (Inr [5]) \<and>
          insert_sl s 3 103 = Some (Inr (True, s')) \<and>
          find_sl s' 3 = Some (Inr 103)"
proof -
  have "after [Insert 5 (105::int), Insert 9 109, Erase 9]
          (\<lambda>s. allKeysInOrder s = Some (Inr [5]) \<and>
               (case insert_sl s 3 103 of Some (Inr (b, s')) \<Rightarrow> b | _ \<Rightarrow> False))"
    by code_simp
  then obtain s where s: "run (Some construct) [Insert 5 (105::int), Insert 9 109, Erase 9]
      = Some (Inr s)" "allKeysInOrder s = Some (Inr [5]) \<and>
               (case insert_sl s 3 103 of Some (Inr (b, s')) \<Rightarrow> b | _ \<Rightarrow> False)"
    by (rule afterE)
  then obtain s' where i: "insert_sl s 3 103 = Some (Inr (True, s'))"
    by (auto split: option.splits sum.splits)
  have k: "(3 :: 32 word) \<notin> set [5]" by simp
  have "find_sl s' 3 = Some (Inr 103)"
    using insert_then_find [OF s(1) _ k i] s(2) by simp
  then show ?thesis using s i by blast
qed

section \<open>The layer cap\<close>

lemma inserts_cap:
  "\<exists>s ls. run (Some construct) (map (\<lambda>(k, v). Insert k v) kvs) = Some (Inr s) \<and>
          wf s ls \<and> SkipListSize s = length kvs \<and>
          SkipListLayers s \<le> cap (length kvs) \<and>
          (kvs \<noteq> [] \<and> (\<forall>i. flipCoin (fst (last kvs)) i) \<longrightarrow>
             SkipListLayers s = cap (length kvs)) \<and>
          set (map (fld key (heap s)) (inner (ls ! 0))) = fst ` set kvs"
proof -
  obtain s ls where r: "run (Some construct) (map (\<lambda>(k, v). Insert k v) kvs) = Some (Inr s)"
    "wf s ls" "SkipListLayers s \<le> cap (SkipListSize s)" "SkipListSize s = length kvs"
    "map (fld key (heap s)) (inner (ls ! 0)) = fold insort (map fst kvs) []"
    using run_from_construct [of kvs] by blast
  have tight: "SkipListLayers s = cap (length kvs)"
    if ne: "kvs \<noteq> []" and all: "\<forall>i. flipCoin (fst (last kvs)) i"
  proof -
    obtain kvs0 kv where snoc: "kvs = kvs0 @ [kv]" using ne by (cases kvs rule: rev_cases) auto
    obtain k v where kv: "kv = (k, v)" by (cases kv)
    obtain s0 ls0 where r0:
      "run (Some construct) (map (\<lambda>(k, v). Insert k v) kvs0) = Some (Inr s0)"
      "wf s0 ls0" "SkipListLayers s0 \<le> cap (SkipListSize s0)"
      using run_from_construct [of kvs0] by blast
    obtain s' ls' where i: "insert_sl s0 k v = Some (Inr (True, s'))"
      "(\<forall>i. flipCoin k i) \<longrightarrow> SkipListLayers s' = cap (SkipListSize s')"
      using insert_total [OF r0(2,3), of k v] by blast
    have "run (Some construct) (map (\<lambda>(k, v). Insert k v) kvs) =
            run (Some (Inr s0)) [Insert k v]"
      using r0(1) snoc kv by (simp add: run_append)
    also have "\<dots> = Some (Inr s')" using i(1) by (simp add: bind_simps)
    finally have "s' = s" using r(1) by simp
    moreover have "fst (last kvs) = k" using snoc kv by simp
    ultimately show ?thesis using i(2) all r(4) by simp
  qed
  have "set (map (fld key (heap s)) (inner (ls ! 0))) = fst ` set kvs"
    unfolding r(5) by (simp add: fold_insort_props(1))
  then show ?thesis
    using r(1,2,3,4) tight by (intro exI [of _ s] exI [of _ ls]) simp
qed




section \<open>Insertion above the cap\<close>

text \<open>
  The two \<^verbatim>\<open>break\<close> tests compare the layer count with the cap by \<^verbatim>\<open>==\<close>. Once the
  layer count is above the cap, which an erase can bring about, they never hold again, and
  for a key whose coin never loses the promotion loop does not leave.
\<close>

lemma promote_above_cap:
  assumes run: "promote s k v nf rT tT nl = Some y"
    and pre: "rT = Some r" "tT = Some t" "nl = Suc j" "wf s ls"
      "Suc j < length ls" "ls ! j = A @ r # t # B" "B \<noteq> []"
      "fld up (heap s) t = None" "fld key (heap s) t = k"
    and coin: "\<forall>i. flipCoin k i" and above: "cap (SkipListSize s) < SkipListLayers s"
  shows False
proof -
  define P where "P = (\<lambda>(s :: 'a SkipList) (k :: 32 word) (v :: 'a) (nf :: nat) (rT :: ptr) (tT :: ptr) (nl :: nat)
        (y :: error + 'a SkipList).
      \<forall>r t ls j A B. rT = Some r \<and> tT = Some t \<and> nl = Suc j \<and> wf s ls \<and>
           Suc j < length ls \<and> ls ! j = A @ r # t # B \<and> B \<noteq> [] \<and>
           fld up (heap s) t = None \<and> fld key (heap s) t = k \<and>
           (\<forall>i. flipCoin k i) \<and> cap (SkipListSize s) < SkipListLayers s \<longrightarrow> False)"
  have "P s k v nf rT tT nl y"
  proof (rule promote.raw_induct [where P = P, OF _ run])
    fix promote' :: "'a SkipList \<Rightarrow> 32 word \<Rightarrow> 'a \<Rightarrow> nat \<Rightarrow> ptr \<Rightarrow> ptr \<Rightarrow> nat \<Rightarrow> 'a SkipList result"
    fix s k v nf rT tT nl y
    assume IH: "\<And>s k v nf rT tT nl y. promote' s k v nf rT tT nl = Some y \<Longrightarrow> P s k v nf rT tT nl y"
    assume body: "(if flipCoin k nf
      then case if nl = SkipListLayers s - 1 then grow s else Inr s of
           Inl e \<Rightarrow> Some (Inl e)
           | Inr s \<Rightarrow>
               case walk_back (heap s) rT of None \<Rightarrow> None
               | Some (Inl e) \<Rightarrow> Some (Inl e)
               | Some (Inr randTmp) \<Rightarrow>
                   case lift s k v randTmp tT of Inl e \<Rightarrow> Some (Inl e)
                   | Inr (randTmp, randTmp2, s) \<Rightarrow>
                       if cap_reached s then Some (Inr s)
                       else promote' s k v (nf + 1) randTmp randTmp2 (nl + 1)
      else Some (Inr s)) = Some y"
    show "P s k v nf rT tT nl y"
      unfolding P_def
    proof (intro allI impI)
      fix r t ls j A B
      assume a: "rT = Some r \<and> tT = Some t \<and> nl = Suc j \<and> wf s ls \<and>
           Suc j < length ls \<and> ls ! j = A @ r # t # B \<and> B \<noteq> [] \<and>
           fld up (heap s) t = None \<and> fld key (heap s) t = k \<and>
           (\<forall>i. flipCoin k i) \<and> cap (SkipListSize s) < SkipListLayers s"
      have a': "wf s ls" "Suc j < length ls" "ls ! j = A @ r # t # B" "B \<noteq> []"
         "fld up (heap s) t = None" "fld key (heap s) t = k"
        using a by simp_all
      have coin: "\<forall>i. flipCoin k i" and above: "cap (SkipListSize s) < SkipListLayers s"
        using a by simp_all
      have True: "flipCoin k nf" using coin by simp
      obtain s1 p s2 ls2 r2 t2 A2 B2 where st:
        "(if Suc j = SkipListLayers s - 1 then grow s else Inr s) = Inr s1"
        "walk_back (heap s1) (Some r) = Some (Inr (Some p))"
        "lift s1 k v (Some p) (Some t) = Inr (Some r2, Some t2, s2)"
        "wf s2 ls2" "Suc (Suc j) < length ls2"
        "ls2 ! Suc j = A2 @ r2 # t2 # B2" "B2 \<noteq> []"
        "fld up (heap s2) t2 = None" "fld key (heap s2) t2 = k"
        "ls2 ! 0 = ls ! 0" "extends s s2"
        using promote_step [OF a', of v] by blast
      have sz: "SkipListSize s2 = SkipListSize s" "SkipListLayers s \<le> SkipListLayers s2"
        using st(11) by (simp_all add: extends_def)
      have above2: "cap (SkipListSize s2) < SkipListLayers s2" using above sz by simp
      then have nc: "\<not> cap_reached s2" by (simp add: cap_reached_iff)
      have nl: "nl = Suc j" "rT = Some r" "tT = Some t" using a by simp_all
      have "promote' s2 k v (nf + 1) (Some r2) (Some t2) (Suc (Suc j)) = Some y"
        using body True st(1,2,3) nc unfolding nl by (simp split: if_splits)
      then have "P s2 k v (nf + 1) (Some r2) (Some t2) (Suc (Suc j)) y" by (rule IH)
      then show False unfolding P_def using st(4-9) coin above2 by blast
    qed
  qed
  then show ?thesis unfolding P_def using pre coin above by blast
qed

lemma insert_above_cap:
  assumes w: "wf s ls" and coin: "\<forall>i. flipCoin k i"
    and above: "cap (SkipListSize s + 1) < SkipListLayers s"
  shows "insert_sl s k v = None"
proof -
  obtain tmp0 t A x B sa where f:
      "descend (heap s) k (topFront s) = Some (Inr (Some tmp0))"
      "advance (heap s) k (Some tmp0) = Some (Inr (Position (Some t)))"
      "splice_base s k v (Some t) = Inr (Some (fresh s), sa)"
      "ls ! 0 = A @ t # x # B"
      "wf sa (ls[0 := A @ t # fresh s # x # B])"
      "fld up (heap sa) (fresh s) = None"
      "fld key (heap sa) = (fld key (heap s))(fresh s := k)"
      "SkipListSize sa = SkipListSize s + 1" "SkipListLayers sa = SkipListLayers s"
    using insert_front [OF w, of k v] by blast
  let ?lsa = "ls[0 := A @ t # fresh s # x # B]"
  have len: "2 \<le> length ls" "0 < length ls" using wf_length [OF w] by simp_all
  have unf: "insert_sl s k v =
           bindR (promote sa k v 0 (Some t) (Some (fresh s)) 1) (\<lambda>s. Some (Inr (True, s)))"
    by (rule insert_unfold [OF f(1,2,3)])
  have p: "?lsa ! 0 = A @ t # fresh s # (x # B)" "Suc 0 < length ?lsa" "x # B \<noteq> []"
    "fld key (heap sa) (fresh s) = k"
    using len f(7) by simp_all
  have above': "cap (SkipListSize sa) < SkipListLayers sa" using above f(8,9) by simp
  have "promote sa k v 0 (Some t) (Some (fresh s)) 1 = None"
  proof (cases "promote sa k v 0 (Some t) (Some (fresh s)) 1")
    case None
    then show ?thesis .
  next
    case (Some y)
    have False
      by (rule promote_above_cap [OF Some refl refl _ f(5) p(2) p(1) p(3) f(6) p(4) coin above'])
         simp
    then show ?thesis ..
  qed
  then show ?thesis using unf by (simp add: bind_simps)
qed

text \<open>
  Seventeen inserts, the last one of 255, bring the layer count to 16. Two erases leave 15
  keys. The next insert of 255 makes 16 keys, whose cap 13 lies below the 16 layers: the
  call does not return.
\<close>

theorem insert_after_erases_does_not_return:
  "run (Some construct)
     (map (\<lambda>k. Insert k (0::int)) [1, 2, 3, 4, 5, 6, 7, 8, 9, 10, 11, 12, 13, 14, 15, 16] @
      [Insert 255 0, Erase 255, Erase 1, Insert 255 0]) = None"
proof -
  define kvs where "kvs =
    map (\<lambda>k. (k, 0::int)) [1, 2, 3, 4, 5, 6, 7, 8, 9, 10, 11, 12, 13, 14, 15, 16 :: 32 word]
      @ [(255, 0)]"
  have kvs: "length kvs = 17" "kvs \<noteq> []" "fst (last kvs) = 255" "255 \<in> fst ` set kvs"
    "1 \<in> fst ` set kvs"
    by (simp_all add: kvs_def)
  have ops: "map (\<lambda>k. Insert k (0::int)) [1, 2, 3, 4, 5, 6, 7, 8, 9, 10, 11, 12, 13, 14, 15, 16] @
          [Insert 255 0, Erase 255, Erase 1, Insert 255 0] =
        map (\<lambda>(k, v). Insert k v) kvs @ [Erase 255, Erase 1, Insert 255 0]"
    by (simp add: kvs_def)
  obtain s ls where r: "run (Some construct) (map (\<lambda>(k, v). Insert k v) kvs) = Some (Inr s)"
    "wf s ls" "SkipListSize s = length kvs"
    "kvs \<noteq> [] \<and> (\<forall>i. flipCoin (fst (last kvs)) i) \<longrightarrow> SkipListLayers s = cap (length kvs)"
    "set (map (fld key (heap s)) (inner (ls ! 0))) = fst ` set kvs"
    using inserts_cap [of kvs] by blast
  have c17: "cap 17 = 16" by (simp add: cap_def ceil_log2_17)
  have c16: "cap 16 = 13" by (simp add: cap_def)
  have L: "SkipListLayers s = 16" using r(4) kvs(2) flipCoin_255 c17 unfolding kvs(1,3) by simp
  have S: "SkipListSize s = 17" using r(3) kvs(1) by simp
  have k255: "255 \<in> set (map (fld key (heap s)) (inner (ls ! 0)))" unfolding r(5) by (rule kvs(4))
  obtain s1 ls1 where e1: "erase s 255 = Some (Inr s1)" "wf s1 ls1"
    "Suc (SkipListSize s1) = SkipListSize s" "SkipListLayers s1 = SkipListLayers s"
    "map (fld key (heap s1)) (inner (ls1 ! 0)) = remove1 255 (map (fld key (heap s)) (inner (ls ! 0)))"
    using erase_present [OF r(2) k255] by blast
  have "1 \<in> set (map (fld key (heap s)) (inner (ls ! 0)))" unfolding r(5) by (rule kvs(5))
  then have k1: "1 \<in> set (map (fld key (heap s1)) (inner (ls1 ! 0)))"
    unfolding e1(5) by (simp add: in_set_remove1)
  obtain s2 ls2 where e2: "erase s1 1 = Some (Inr s2)" "wf s2 ls2"
    "Suc (SkipListSize s2) = SkipListSize s1" "SkipListLayers s2 = SkipListLayers s1"
    using erase_present [OF e1(2) k1] by blast
  have "cap (SkipListSize s2 + 1) < SkipListLayers s2" using e1(3,4) e2(3,4) L S c16 by simp
  then have i: "insert_sl s2 255 0 = None"
    using insert_above_cap [OF e2(2)] flipCoin_255 by blast
  have "run (Some construct) (map (\<lambda>(k, v). Insert k v) kvs @ [Erase 255, Erase 1, Insert 255 0]) =
        run (run (Some construct) (map (\<lambda>(k, v). Insert k v) kvs)) [Erase 255, Erase 1, Insert 255 0]"
    by (rule run_append)
  also have "\<dots> = None" using r(1) e1(1) e2(1) i by (simp add: bind_simps)
  finally show ?thesis unfolding ops .
qed

end
